theory Spec2Isabelle
  imports Complex_Main
begin

section \<open>Data model of the stateful graph (abstractions.py, flow\_pathing\_example.py)\<close>

text \<open>
  Python objects are identified by their address: a node is the index of its object in
  the heap \<open>objs\<close>. Python floats are modelled by the type \<open>pyfloat\<close> below. A Python \<open>dict\<close> is an
  association list in insertion order, a Python \<open>set\<close> is a duplicate-free list (its
  iteration order is the order of the list). Names that start with an underscore in the
  source carry the prefix \<open>u_\<close> here.
\<close>

type_synonym node = nat

definition CONSISTENT :: string where
  "CONSISTENT = ''consistent''"

datatype Direction = DOWN | UP | BOTH

fun Direction_value :: "Direction \<Rightarrow> int" where
  "Direction_value DOWN = - 1"
| "Direction_value UP = 1"
| "Direction_value BOTH = 0"

datatype error = KeyError | LookupError | RuntimeError | TimeoutError | TypeError

text \<open>\<open>except LookupError\<close> also catches \<open>KeyError\<close>, its subclass.\<close>

fun is_LookupError :: "error \<Rightarrow> bool" where
  "is_LookupError KeyError = True"
| "is_LookupError LookupError = True"
| "is_LookupError RuntimeError = False"
| "is_LookupError TimeoutError = False"
| "is_LookupError TypeError = False"

subsection \<open>Floats\<close>

text \<open>
  A Python float is a finite value, \<open>inf\<close>, \<open>-inf\<close> or \<open>nan\<close>. A finite float is represented by
  the real number it denotes, and arithmetic on finite values is exact here: the rounding of
  a result, and the overflow of a finite result to \<open>inf\<close>, are not modelled, and the two
  zeros are one (so \<open>sum\<close> is the plain sum from left to right, starting at \<open>0.0\<close>). Statements whose truth depends on that are restricted to values on which
  float arithmetic is exact.
\<close>

datatype pyfloat = Finite real | PInf | NInf | NaN

fun is_finite :: "pyfloat \<Rightarrow> bool" where
  "is_finite (Finite a) = True"
| "is_finite PInf = False"
| "is_finite NInf = False"
| "is_finite NaN = False"

fun fneg :: "pyfloat \<Rightarrow> pyfloat" where
  "fneg (Finite a) = Finite (- a)"
| "fneg PInf = NInf"
| "fneg NInf = PInf"
| "fneg NaN = NaN"

fun fadd :: "pyfloat \<Rightarrow> pyfloat \<Rightarrow> pyfloat" where
  "fadd (Finite a) (Finite b) = Finite (a + b)"
| "fadd (Finite a) PInf = PInf"
| "fadd (Finite a) NInf = NInf"
| "fadd (Finite a) NaN = NaN"
| "fadd PInf (Finite b) = PInf"
| "fadd PInf PInf = PInf"
| "fadd PInf NInf = NaN"
| "fadd PInf NaN = NaN"
| "fadd NInf (Finite b) = NInf"
| "fadd NInf PInf = NaN"
| "fadd NInf NInf = NInf"
| "fadd NInf NaN = NaN"
| "fadd NaN b = NaN"

definition fsub :: "pyfloat \<Rightarrow> pyfloat \<Rightarrow> pyfloat" where
  "fsub a b = fadd a (fneg b)"

text \<open>\<open>a < b\<close>; every comparison with \<open>nan\<close> is false.\<close>

fun flt :: "pyfloat \<Rightarrow> pyfloat \<Rightarrow> bool" where
  "flt (Finite a) (Finite b) = (a < b)"
| "flt (Finite a) PInf = True"
| "flt (Finite a) NInf = False"
| "flt (Finite a) NaN = False"
| "flt PInf b = False"
| "flt NInf (Finite b) = True"
| "flt NInf PInf = True"
| "flt NInf NInf = False"
| "flt NInf NaN = False"
| "flt NaN b = False"

definition fgt :: "pyfloat \<Rightarrow> pyfloat \<Rightarrow> bool" where
  "fgt a b = flt b a"

text \<open>\<open>a != b\<close>; \<open>nan\<close> differs from everything, itself included.\<close>

fun fne :: "pyfloat \<Rightarrow> pyfloat \<Rightarrow> bool" where
  "fne NaN b = True"
| "fne a NaN = True"
| "fne a b = (a \<noteq> b)"

text \<open>
  \<open>a / b\<close>. Python raises \<open>ZeroDivisionError\<close> when \<open>b\<close> is zero; the two divisions of the
  source are guarded (the divisor is not less than \<open>1e-5\<close>, or greater than 0), so that case
  is never reached and is given the value \<open>nan\<close> here.
\<close>

fun fdiv :: "pyfloat \<Rightarrow> pyfloat \<Rightarrow> pyfloat" where
  "fdiv NaN b = NaN"
| "fdiv a NaN = NaN"
| "fdiv (Finite a) (Finite b) = (if b = 0 then NaN else Finite (a / b))"
| "fdiv (Finite a) PInf = Finite 0"
| "fdiv (Finite a) NInf = Finite 0"
| "fdiv PInf (Finite b) = (if b = 0 then NaN else if 0 < b then PInf else NInf)"
| "fdiv NInf (Finite b) = (if b = 0 then NaN else if 0 < b then NInf else PInf)"
| "fdiv PInf PInf = NaN"
| "fdiv PInf NInf = NaN"
| "fdiv NInf PInf = NaN"
| "fdiv NInf NInf = NaN"

text \<open>
  \<open>max\<close> and \<open>min\<close> keep the first item and replace it by a later item only when that one
  is greater (less): \<open>max(a, b)\<close> and \<open>max(xs)\<close>, \<open>min(xs)\<close> on a list that is not empty.
\<close>

definition py_max :: "pyfloat \<Rightarrow> pyfloat \<Rightarrow> pyfloat" where
  "py_max a b = (if fgt b a then b else a)"

definition py_min :: "pyfloat \<Rightarrow> pyfloat \<Rightarrow> pyfloat" where
  "py_min a b = (if flt b a then b else a)"

definition list_max :: "pyfloat list \<Rightarrow> pyfloat" where
  "list_max xs = fold (\<lambda>item max_item. py_max max_item item) (tl xs) (hd xs)"

definition list_min :: "pyfloat list \<Rightarrow> pyfloat" where
  "list_min xs = fold (\<lambda>item min_item. py_min min_item item) (tl xs) (hd xs)"

subsection \<open>Dictionaries and sets\<close>

fun dict_setdefault :: "'k \<Rightarrow> 'v \<Rightarrow> ('k \<times> 'v) list \<Rightarrow> ('k \<times> 'v) list" where
  "dict_setdefault k v [] = [(k, v)]"
| "dict_setdefault k v (p # ps) = (if fst p = k then p # ps else p # dict_setdefault k v ps)"

fun dict_setitem :: "'k \<Rightarrow> 'v \<Rightarrow> ('k \<times> 'v) list \<Rightarrow> ('k \<times> 'v) list" where
  "dict_setitem k v [] = [(k, v)]"
| "dict_setitem k v (p # ps) = (if fst p = k then (k, v) # ps else p # dict_setitem k v ps)"

fun dict_modify :: "'k \<Rightarrow> ('v \<Rightarrow> 'v) \<Rightarrow> ('k \<times> 'v) list \<Rightarrow> ('k \<times> 'v) list" where
  "dict_modify k f [] = []"
| "dict_modify k f (p # ps) = (if fst p = k then (k, f (snd p)) # ps else p # dict_modify k f ps)"

definition set_add :: "'a \<Rightarrow> 'a list \<Rightarrow> 'a list" where
  "set_add x xs = (if x \<in> set xs then xs else xs @ [x])"

definition set_union :: "'a list \<Rightarrow> 'a list \<Rightarrow> 'a list" where
  "set_union xs ys = fold set_add ys xs"

subsection \<open>EdgeSet, Segment and the process-wide state\<close>

record EdgeSet =
  children :: "node list"
  parents :: "node list"

definition EdgeSet_init :: EdgeSet where
  "EdgeSet_init = \<lparr>children = [], parents = []\<rparr>"

definition EdgeSet_add :: "EdgeSet \<Rightarrow> EdgeSet \<Rightarrow> EdgeSet" where
  "EdgeSet_add a b =
     \<lparr>children = set_union (children a) (children b),
      parents = set_union (parents a) (parents b)\<rparr>"

text \<open>
  A \<open>Segment\<close> is a \<open>GenericStatefulGraph\<close> whose payload is a \<open>Volume\<close>; the fields of
  the payload (\<open>name\<close>, \<open>volume\<close>, \<open>_flow_rate\<close>) are kept beside the fields of the node.
\<close>

record Segment =
  name :: string
  volume :: pyfloat
  u_flow_rate :: pyfloat
  u_state_ids :: "string list"
  u_connections :: "(string \<times> EdgeSet) list"

text \<open>
  The class attributes \<open>GenericStatefulGraph.state_cache\<close> and \<open>Segment._nodes\<close> are
  shared by all instances: they are fields of the world, not of a node.
\<close>

record world =
  state_cache :: "(string \<times> string) list"
  objs :: "Segment list"
  u_nodes :: "(string \<times> node) list"

definition world_init :: world where
  "world_init = \<lparr>state_cache = [], objs = [], u_nodes = []\<rparr>"

definition seg :: "world \<Rightarrow> node \<Rightarrow> Segment" where
  "seg w n = objs w ! n"

definition upd_seg :: "world \<Rightarrow> node \<Rightarrow> (Segment \<Rightarrow> Segment) \<Rightarrow> world" where
  "upd_seg w n f = w\<lparr>objs := (objs w)[n := f (objs w ! n)]\<rparr>"

text \<open>\<open>Segment.__init__\<close>: allocates the object and returns its address.\<close>

definition Segment_init :: "world \<Rightarrow> string \<Rightarrow> pyfloat \<Rightarrow> node \<times> world" where
  "Segment_init w nm vol =
     (length (objs w),
      w\<lparr>objs := objs w @
         [\<lparr>name = nm, volume = vol, u_flow_rate = Finite 0, u_state_ids = [],
           u_connections = [(CONSISTENT, EdgeSet_init)]\<rparr>]\<rparr>)"

definition set_state :: "world \<Rightarrow> string \<Rightarrow> string \<Rightarrow> world" where
  "set_state w component_state_id state = w\<lparr>state_cache := dict_setitem component_state_id state (state_cache w)\<rparr>"

subsection \<open>Wiring: \<open>_add_child\<close>, \<open>_add_parent\<close>, \<open>connect\<close>\<close>

definition Generic_add_child :: "world \<Rightarrow> node \<Rightarrow> node \<Rightarrow> string option \<Rightarrow> string \<Rightarrow> world" where
  "Generic_add_child w self child component_state_id state_name =
     (let w1 = (case component_state_id of
                  None \<Rightarrow> w
                | Some g \<Rightarrow>
                    (upd_seg w self (\<lambda>s. s\<lparr>u_state_ids := set_add g (u_state_ids s)\<rparr>))
                      \<lparr>state_cache := dict_setdefault g state_name (state_cache w)\<rparr>);
          w2 = upd_seg w1 self
                 (\<lambda>s. s\<lparr>u_connections := dict_setdefault state_name EdgeSet_init (u_connections s)\<rparr>)
      in upd_seg w2 self
           (\<lambda>s. s\<lparr>u_connections :=
                    dict_modify state_name (\<lambda>e. e\<lparr>children := set_add child (children e)\<rparr>)
                      (u_connections s)\<rparr>))"

definition Generic_add_parent :: "world \<Rightarrow> node \<Rightarrow> node \<Rightarrow> string option \<Rightarrow> string \<Rightarrow> world" where
  "Generic_add_parent w self parent component_state_id state_name =
     (let w1 = (case component_state_id of
                  None \<Rightarrow> w
                | Some g \<Rightarrow>
                    (upd_seg w self (\<lambda>s. s\<lparr>u_state_ids := set_add g (u_state_ids s)\<rparr>))
                      \<lparr>state_cache := dict_setdefault g state_name (state_cache w)\<rparr>);
          w2 = upd_seg w1 self
                 (\<lambda>s. s\<lparr>u_connections := dict_setdefault state_name EdgeSet_init (u_connections s)\<rparr>)
      in upd_seg w2 self
           (\<lambda>s. s\<lparr>u_connections :=
                    dict_modify state_name (\<lambda>e. e\<lparr>parents := set_add parent (parents e)\<rparr>)
                      (u_connections s)\<rparr>))"

text \<open>The overrides of \<open>Segment\<close>: the generic method, then the registration by name.\<close>

definition u_add_child :: "world \<Rightarrow> node \<Rightarrow> node \<Rightarrow> string option \<Rightarrow> string \<Rightarrow> world" where
  "u_add_child w self child component_state_id state_name =
     (let w1 = Generic_add_child w self child component_state_id state_name
      in w1\<lparr>u_nodes := dict_setdefault (name (seg w1 child)) child (u_nodes w1)\<rparr>)"

definition u_add_parent :: "world \<Rightarrow> node \<Rightarrow> node \<Rightarrow> string option \<Rightarrow> string \<Rightarrow> world" where
  "u_add_parent w self parent component_state_id state_name =
     (let w1 = Generic_add_parent w self parent component_state_id state_name
      in w1\<lparr>u_nodes := dict_setdefault (name (seg w1 parent)) parent (u_nodes w1)\<rparr>)"

definition connect_target :: "node \<Rightarrow> string option \<times> string \<Rightarrow> Direction \<Rightarrow> node \<Rightarrow> world \<Rightarrow> world" where
  "connect_target self for_state direction target w =
     (let w1 = (if Direction_value direction \<le> 0
                then u_add_parent (u_add_child w self target (fst for_state) (snd for_state))
                       target self (fst for_state) (snd for_state)
                else w)
      in if Direction_value direction \<ge> 0
         then u_add_child (u_add_parent w1 self target (fst for_state) (snd for_state))
                target self (fst for_state) (snd for_state)
         else w1)"

definition connect :: "world \<Rightarrow> node \<Rightarrow> node list \<Rightarrow> (string \<times> string) option \<Rightarrow> Direction \<Rightarrow> world" where
  "connect w self targets for_state direction =
     (let fs = (case for_state of None \<Rightarrow> (None, CONSISTENT) | Some (g, s) \<Rightarrow> (Some g, s))
      in fold (connect_target self fs direction) targets w)"

subsection \<open>Resolving the connections of a node\<close>

text \<open>
  \<open>self.state_cache[state_id]\<close> and \<open>self._connections[CONSISTENT]\<close> raise \<open>KeyError\<close> on a
  missing key; \<open>self._connections.get(..., EdgeSet())\<close> does not.
\<close>

fun active_buckets :: "(string \<times> string) list \<Rightarrow> (string \<times> EdgeSet) list \<Rightarrow> string list \<Rightarrow> error + EdgeSet list" where
  "active_buckets cache conns [] = Inr []"
| "active_buckets cache conns (state_id # ids) =
     (case map_of cache state_id of
        None \<Rightarrow> Inl KeyError
      | Some st \<Rightarrow>
          (case active_buckets cache conns ids of
             Inl e \<Rightarrow> Inl e
           | Inr es \<Rightarrow> Inr ((case map_of conns st of None \<Rightarrow> EdgeSet_init | Some e \<Rightarrow> e) # es)))"

definition connections :: "world \<Rightarrow> node \<Rightarrow> bool \<Rightarrow> error + EdgeSet" where
  "connections w self ignore_state =
     (if ignore_state
      then Inr (foldl EdgeSet_add EdgeSet_init (map snd (u_connections (seg w self))))
      else (case active_buckets (state_cache w) (u_connections (seg w self)) (u_state_ids (seg w self)) of
              Inl e \<Rightarrow> Inl e
            | Inr es \<Rightarrow>
                (case map_of (u_connections (seg w self)) CONSISTENT of
                   None \<Rightarrow> Inl KeyError
                 | Some start \<Rightarrow> Inr (foldl EdgeSet_add start es))))"

definition has_children :: "world \<Rightarrow> node \<Rightarrow> bool \<Rightarrow> error + nat" where
  "has_children w self ignore_state =
     (case connections w self ignore_state of Inl e \<Rightarrow> Inl e | Inr es \<Rightarrow> Inr (length (children es)))"

definition has_parents :: "world \<Rightarrow> node \<Rightarrow> bool \<Rightarrow> error + nat" where
  "has_parents w self ignore_state =
     (case connections w self ignore_state of Inl e \<Rightarrow> Inl e | Inr es \<Rightarrow> Inr (length (parents es)))"

section \<open>Traversal\<close>

definition space :: "world \<Rightarrow> Direction \<Rightarrow> bool \<Rightarrow> node \<Rightarrow> error + node list" where
  "space w direction ignore_state self =
     (case connections w self ignore_state of
        Inl e \<Rightarrow> Inl e
      | Inr es \<Rightarrow>
          (let s1 = (if Direction_value direction \<le> 0 then set_union [] (children es) else []);
               s2 = (if Direction_value direction \<ge> 0 then set_union s1 (parents es) else s1)
           in Inr s2))"

text \<open>The results of the recursive generators, in order; the first exception ends the search.\<close>

fun seq_results :: "(error + 'a list) list \<Rightarrow> error + 'a list" where
  "seq_results [] = Inr []"
| "seq_results (Inl e # rs) = Inl e"
| "seq_results (Inr xs # rs) = (case seq_results rs of Inl e \<Rightarrow> Inl e | Inr ys \<Rightarrow> Inr (xs @ ys))"

text \<open>
  \<open>_traverse\<close>. The search space of a node is \<open>sp\<close> (in the source: computed from
  \<open>direction\<close> and \<open>ignore_state\<close>, see \<open>traverse\<close> below), in its iteration order.
  \<open>visited.add(self)\<close> and \<open>path.append(self)\<close> on entry are undone by \<open>path.pop()\<close> and
  \<open>visited.remove(self)\<close> on exit, so every neighbour is tested against, and searched
  with, the set and the path of the entry extended by \<open>self\<close>. The objects are the
  addresses below \<open>N\<close>; an address that holds no object has nothing to search.
\<close>

function u_traverse ::
  "(node \<Rightarrow> error + node list) \<Rightarrow> (node \<Rightarrow> bool) \<Rightarrow> nat \<Rightarrow> node set \<Rightarrow> node list \<Rightarrow> node
     \<Rightarrow> error + (node \<times> node list) list" where
  "u_traverse sp target N visited path self =
     (if \<not> self < N then Inr []
      else (case sp self of
              Inl e \<Rightarrow> Inl e
            | Inr nbrs \<Rightarrow>
                (case seq_results
                        (map (\<lambda>subgraph.
                                if subgraph \<in> insert self visited then Inr []
                                else u_traverse sp target N (insert self visited) (path @ [self]) subgraph)
                           nbrs) of
                   Inl e \<Rightarrow> Inl e
                 | Inr found \<Rightarrow>
                     Inr ((if target self then [(self, path @ [self])] else []) @ found))))"
  by pat_completeness auto
termination
proof (relation "measure (\<lambda>(sp, target, N, visited, path, self).
                   2 * card ({..<N} - insert self visited) + (if self < N then 1 else 0))")
  show "wf (measure (\<lambda>(sp, target, N, visited, path, self).
                   2 * card ({..<N} - insert self visited) + (if self < N then 1 else 0)))"
    by simp
next
  fix sp :: "node \<Rightarrow> error + node list" and target :: "node \<Rightarrow> bool"
    and N :: nat and visited :: "node set" and path :: "node list" and self :: node
    and nbrs :: "node list" and subgraph :: node
  assume self: "\<not> \<not> self < N" and new: "subgraph \<notin> insert self visited"
  show "((sp, target, N, insert self visited, path @ [self], subgraph),
         (sp, target, N, visited, path, self))
        \<in> measure (\<lambda>(sp, target, N, visited, path, self).
                   2 * card ({..<N} - insert self visited) + (if self < N then 1 else 0))"
  proof (cases "subgraph < N")
    case True
    have "{..<N} - insert subgraph (insert self visited) \<subset> {..<N} - insert self visited"
      using True new by auto
    then have "card ({..<N} - insert subgraph (insert self visited)) < card ({..<N} - insert self visited)"
      by (intro psubset_card_mono) auto
    then show ?thesis using self True by simp
  next
    case False
    have "{..<N} - insert subgraph (insert self visited) = {..<N} - insert self visited"
      using False by auto
    then show ?thesis using self False by simp
  qed
qed

text \<open>
  The default condition of \<open>traverse\<close> is \<open>lambda n: not n.has_children\<close>: the attribute is
  read, not called, and a bound method object is true.
\<close>

definition method_object_truth :: bool where
  "method_object_truth = True"

definition default_condition :: "world \<Rightarrow> node \<Rightarrow> bool" where
  "default_condition w n = (\<not> method_object_truth)"

definition traverse ::
  "world \<Rightarrow> node \<Rightarrow> (node \<Rightarrow> bool) option \<Rightarrow> Direction \<Rightarrow> bool \<Rightarrow> error + (node \<times> node list) list" where
  "traverse w self condition direction ignore_state =
     u_traverse (space w direction ignore_state)
       (case condition of None \<Rightarrow> default_condition w | Some c \<Rightarrow> c)
       (length (objs w)) {} [] self"

section \<open>Path-derived metrics\<close>

definition volume_to :: "world \<Rightarrow> node \<Rightarrow> string \<Rightarrow> Direction \<Rightarrow> error + pyfloat option" where
  "volume_to w self target_name direction =
     (case traverse w self (Some (\<lambda>n. name (seg w n) = target_name)) direction False of
        Inl e \<Rightarrow> Inl e
      | Inr [] \<Rightarrow> Inr None
      | Inr ((final, path) # other) \<Rightarrow>
          if other \<noteq> [] then Inl RuntimeError
          else Inr (Some (fsub (foldl (\<lambda>v segment. fadd v (volume (seg w segment))) (Finite 0) path)
                               (volume (seg w final)))))"

definition duration :: "world \<Rightarrow> node \<Rightarrow> pyfloat" where
  "duration w self =
     (if flt (u_flow_rate (seg w self)) (Finite (1 / 100000)) then Finite 0
      else fdiv (volume (seg w self)) (u_flow_rate (seg w self)))"

definition duration_to :: "world \<Rightarrow> node \<Rightarrow> string \<Rightarrow> Direction \<Rightarrow> error + pyfloat option" where
  "duration_to w self target_name direction =
     (case traverse w self (Some (\<lambda>n. name (seg w n) = target_name)) direction False of
        Inl e \<Rightarrow> Inl e
      | Inr [] \<Rightarrow> Inr None
      | Inr ((final, path) # other) \<Rightarrow>
          if other \<noteq> [] then Inl RuntimeError
          else Inr (Some (fsub (foldl (\<lambda>d segment. fadd d (duration w segment)) (Finite 0) path)
                               (duration w final))))"

section \<open>Flow-rate propagation\<close>

definition reset_flow_rates :: "world \<Rightarrow> world" where
  "reset_flow_rates w =
     fold (\<lambda>(nm, rfr_segment) w'. upd_seg w' rfr_segment (\<lambda>s. s\<lparr>u_flow_rate := Finite 0\<rparr>)) (u_nodes w) w"

text \<open>The first loop of \<open>_build_flow_rates_between\<close>: the named sources get their rates.\<close>

definition seed_sources :: "world \<Rightarrow> (string \<times> pyfloat) list \<Rightarrow> world" where
  "seed_sources w src_flow_rates =
     fold (\<lambda>(source_name, source_flow_rate) w'.
             case map_of (u_nodes w') source_name of
               None \<Rightarrow> w'
             | Some source \<Rightarrow> upd_seg w' source (\<lambda>s. s\<lparr>u_flow_rate := source_flow_rate\<rparr>))
       src_flow_rates w"

text \<open>
  The second loop: one path per source that reaches the target. The accumulator is
  \<open>(path_elements, valid_sources, valid_paths)\<close>; \<open>keys\<close> are the names of all sources.
\<close>

fun collect_paths ::
  "world \<Rightarrow> string \<Rightarrow> string list \<Rightarrow> string list
     \<Rightarrow> (string \<times> node) list \<times> node list \<times> node list list
     \<Rightarrow> error + (string \<times> node) list \<times> node list \<times> node list list" where
  "collect_paths w target_name keys [] acc = Inr acc"
| "collect_paths w target_name keys (source_name # rest) (path_elements, valid_sources, valid_paths) =
     (case map_of (u_nodes w) source_name of
        None \<Rightarrow> collect_paths w target_name keys rest (path_elements, valid_sources, valid_paths)
      | Some source \<Rightarrow>
          (case traverse w source (Some (\<lambda>n. name (seg w n) = target_name)) DOWN False of
             Inl e \<Rightarrow> Inl e
           | Inr [] \<Rightarrow> collect_paths w target_name keys rest (path_elements, valid_sources, valid_paths)
           | Inr ((final, path) # other) \<Rightarrow>
               if other \<noteq> [] then Inl RuntimeError
               else collect_paths w target_name keys rest
                      (fold (\<lambda>segment pe.
                               if name (seg w segment) = target_name \<or> name (seg w segment) \<in> set keys
                               then pe
                               else dict_setdefault (name (seg w segment)) segment pe)
                         path path_elements,
                       set_add source valid_sources,
                       valid_paths @ [path])))"

text \<open>
  One pass of the \<open>for _rec in path_elements.values()\<close> loop; the list returned holds the
  \<open>updated\<close> flag of every record after the pass.
\<close>

fun update_pass :: "world \<Rightarrow> (string \<times> node) list \<Rightarrow> (error + bool list) \<times> world" where
  "update_pass w [] = (Inr [], w)"
| "update_pass w ((nm, segment) # rest) =
     (case connections w segment False of
        Inl e \<Rightarrow> (Inl e, w)
      | Inr es \<Rightarrow>
          (let old_value = u_flow_rate (seg w segment);
               new_value = foldl fadd (Finite 0) (map (\<lambda>p. u_flow_rate (seg w p)) (parents es));
               w' = (if fne old_value new_value
                     then upd_seg w segment (\<lambda>s. s\<lparr>u_flow_rate := new_value\<rparr>)
                     else w)
           in (case update_pass w' rest of
                 (Inl e, w'') \<Rightarrow> (Inl e, w'')
               | (Inr flags, w'') \<Rightarrow> (Inr (fne old_value new_value # flags), w''))))"

text \<open>
  The \<open>while first_pass or any(updated)\<close> loop, entered with \<open>_iterations\<close> passes done:
  a pass, the counter, the cap, then the loop condition.
\<close>

function propagate :: "world \<Rightarrow> (string \<times> node) list \<Rightarrow> nat \<Rightarrow> (error + unit) \<times> world" where
  "propagate w path_elements iterations =
     (case update_pass w path_elements of
        (Inl e, w') \<Rightarrow> (Inl e, w')
      | (Inr flags, w') \<Rightarrow>
          if iterations + 1 > 1000 then (Inl TimeoutError, w')
          else if list_ex (\<lambda>updated. updated) flags then propagate w' path_elements (iterations + 1)
          else (Inr (), w'))"
  by pat_completeness auto
termination
  by (relation "measure (\<lambda>(w, path_elements, iterations). 1001 - iterations)") auto

definition u_build_flow_rates_between ::
  "world \<Rightarrow> node \<Rightarrow> string \<Rightarrow> (string \<times> pyfloat) list \<Rightarrow> (error + node list \<times> node list list) \<times> world" where
  "u_build_flow_rates_between w self target_name src_flow_rates =
     (if map_of (u_nodes w) target_name = None then (Inl LookupError, w)
      else (let w1 = reset_flow_rates w;
                w2 = seed_sources w1 src_flow_rates
            in (case collect_paths w2 target_name (map fst src_flow_rates) (map fst src_flow_rates) ([], [], []) of
                  Inl e \<Rightarrow> (Inl e, w2)
                | Inr (path_elements, valid_sources, valid_paths) \<Rightarrow>
                    (case propagate w2 path_elements 0 of
                       (Inl e, w3) \<Rightarrow> (Inl e, w3)
                     | (Inr u, w3) \<Rightarrow> (Inr (valid_sources, valid_paths), w3)))))"

text \<open>A list comprehension over calls that may raise: the first exception wins.\<close>

fun seq_errors :: "(error + 'a) list \<Rightarrow> error + 'a list" where
  "seq_errors [] = Inr []"
| "seq_errors (Inl e # rs) = Inl e"
| "seq_errors (Inr x # rs) = (case seq_errors rs of Inl e \<Rightarrow> Inl e | Inr xs \<Rightarrow> Inr (x # xs))"

text \<open>
  \<open>max(..., default=Minutes(0))\<close> over the results of \<open>duration_to\<close>: no comparison is made
  on a list of one element; comparing \<open>None\<close> with a number raises \<open>TypeError\<close>.
\<close>

fun max_durations :: "pyfloat option list \<Rightarrow> error + pyfloat option" where
  "max_durations [] = Inr (Some (Finite 0))"
| "max_durations [d] = Inr d"
| "max_durations (d # ds) =
     (if list_ex (\<lambda>x. x = None) (d # ds) then Inl TypeError
      else Inr (Some (list_max (map the (d # ds)))))"

definition time_from :: "world \<Rightarrow> node \<Rightarrow> (string \<times> pyfloat) list \<Rightarrow> (error + pyfloat option) \<times> world" where
  "time_from w self src_flow_rates =
     (case u_build_flow_rates_between w self (name (seg w self)) src_flow_rates of
        (Inl e, w1) \<Rightarrow> if is_LookupError e then (Inr None, w1) else (Inl e, w1)
      | (Inr (valid_sources, valid_paths), w1) \<Rightarrow>
          (case seq_errors (map (\<lambda>source. duration_to w1 source (name (seg w1 self)) DOWN) valid_sources) of
             Inl e \<Rightarrow> (Inl e, w1)
           | Inr ds \<Rightarrow>
               (case max_durations ds of
                  Inl e \<Rightarrow> (Inl e, w1)
                | Inr durations \<Rightarrow> (Inr durations, reset_flow_rates w1))))"

section \<open>Flow stability\<close>

text \<open>\<open>largest_ratio\<close> starts at \<open>float('-Inf')\<close>, that is \<open>NInf\<close>.\<close>

text \<open>The inner loop \<open>for segment in path\<close>; the accumulator is \<open>(unstable_segments, largest_ratio)\<close>.\<close>

fun inspect_path ::
  "world \<Rightarrow> pyfloat \<Rightarrow> node list \<Rightarrow> string list \<times> pyfloat \<Rightarrow> error + string list \<times> pyfloat" where
  "inspect_path w critical_flow_ratio [] acc = Inr acc"
| "inspect_path w critical_flow_ratio (segment # rest) (unstable_segments, largest_ratio) =
     (case connections w segment False of
        Inl e \<Rightarrow> Inl e
      | Inr es \<Rightarrow>
          (let inlet_rates = filter (\<lambda>r. fgt r (Finite 0)) (map (\<lambda>p. u_flow_rate (seg w p)) (parents es))
           in if inlet_rates = [] then inspect_path w critical_flow_ratio rest (unstable_segments, largest_ratio)
              else (let flow_ratio = fdiv (list_max inlet_rates) (list_min inlet_rates)
                    in inspect_path w critical_flow_ratio rest
                         (if fgt flow_ratio critical_flow_ratio
                          then set_add (name (seg w segment)) unstable_segments
                          else unstable_segments,
                          py_max largest_ratio flow_ratio))))"

fun inspect_paths ::
  "world \<Rightarrow> pyfloat \<Rightarrow> node list list \<Rightarrow> string list \<times> pyfloat \<Rightarrow> error + string list \<times> pyfloat" where
  "inspect_paths w critical_flow_ratio [] acc = Inr acc"
| "inspect_paths w critical_flow_ratio (path # paths) acc =
     (case inspect_path w critical_flow_ratio path acc of
        Inl e \<Rightarrow> Inl e
      | Inr acc' \<Rightarrow> inspect_paths w critical_flow_ratio paths acc')"

definition check_flow_stability_from ::
  "world \<Rightarrow> node \<Rightarrow> pyfloat \<Rightarrow> (string \<times> pyfloat) list
     \<Rightarrow> (error + (string list \<times> pyfloat) option) \<times> world" where
  "check_flow_stability_from w self critical_flow_ratio src_flow_rates =
     (case u_build_flow_rates_between w self (name (seg w self)) src_flow_rates of
        (Inl e, w1) \<Rightarrow> if is_LookupError e then (Inr None, w1) else (Inl e, w1)
      | (Inr (valid_sources, paths), w1) \<Rightarrow>
          (case inspect_paths w1 critical_flow_ratio paths ([], NInf) of
             Inl e \<Rightarrow> (Inl e, w1)
           | Inr result \<Rightarrow> (Inr (Some result), reset_flow_rates w1)))"

section \<open>Notions used to state the properties\<close>

text \<open>
  The nodes that a search from \<open>start\<close> can reach: those joined to \<open>start\<close> by a chain of
  search-space steps, among the objects of the heap.
\<close>

definition step :: "(node \<Rightarrow> error + node list) \<Rightarrow> node \<Rightarrow> node \<Rightarrow> bool" where
  "step sp a b = (case sp a of Inl e \<Rightarrow> False | Inr nbrs \<Rightarrow> b \<in> set nbrs)"

definition reachable :: "(node \<Rightarrow> error + node list) \<Rightarrow> nat \<Rightarrow> node \<Rightarrow> node set" where
  "reachable sp N start = {n. n < N \<and> (start, n) \<in> {(a, b). step sp a b}\<^sup>*}"

text \<open>
  What the constructor and the wiring operations establish and no operation undoes: every
  state-group id registered on a node has a value in \<open>state_cache\<close>, and every node has its
  bucket \<open>CONSISTENT\<close>.
\<close>

definition cache_ok :: "world \<Rightarrow> bool" where
  "cache_ok w =
     list_all (\<lambda>s. list_all (\<lambda>g. map_of (state_cache w) g \<noteq> None) (u_state_ids s)
                    \<and> map_of (u_connections s) CONSISTENT \<noteq> None)
       (objs w)"

text \<open>The condition that holds of every node: with it, \<open>traverse\<close> reports every visit.\<close>

definition every_node :: "node \<Rightarrow> bool" where
  "every_node n = True"

section \<open>Example graphs, built through the constructor and \<open>connect\<close>\<close>

text \<open>
  The constructor returns the address of the new object: the first object of a world has
  address 0, the next one 1, and so on.
\<close>

text \<open>Two nodes A (address 0) and B (address 1), not wired yet.\<close>

definition pair_world :: world where
  "pair_world = snd (Segment_init (snd (Segment_init world_init ''A'' (Finite 10))) ''B'' (Finite 20))"

text \<open>A wired to B under the state \<open>open\<close> of the group \<open>valve\<close>; no state is ever set.\<close>

definition valve_world :: world where
  "valve_world = connect pair_world 0 [1] (Some (''valve'', ''open'')) DOWN"

text \<open>The chain A(10) \<rightarrow> B(20) \<rightarrow> C(30), at the addresses 0, 1, 2.\<close>

definition triple_world :: world where
  "triple_world =
     snd (Segment_init (snd (Segment_init (snd (Segment_init world_init ''A'' (Finite 10))) ''B'' (Finite 20))) ''C'' (Finite 30))"

definition chain_world :: world where
  "chain_world = connect (connect triple_world 0 [1] None DOWN) 1 [2] None DOWN"

text \<open>
  A switch: A wired to B under \<open>(valve, open)\<close>, then to C under \<open>(valve, shut)\<close>; no state is
  ever set.
\<close>

definition switch_world :: world where
  "switch_world =
     connect (connect triple_world 0 [1] (Some (''valve'', ''open'')) DOWN)
       0 [2] (Some (''valve'', ''shut'')) DOWN"

text \<open>Four nodes S, A, B, T at the addresses 0, 1, 2, 3, not wired yet.\<close>

definition quad_world :: world where
  "quad_world =
     snd (Segment_init (snd (Segment_init (snd (Segment_init (snd (Segment_init world_init
       ''S'' (Finite 0))) ''A'' (Finite 10))) ''B'' (Finite 20))) ''T'' (Finite 30))"

text \<open>The diamond S \<rightarrow> A \<rightarrow> T, S \<rightarrow> B \<rightarrow> T: two routes from S to T.\<close>

definition diamond_world :: world where
  "diamond_world =
     connect (connect (connect quad_world 0 [1, 2] None DOWN) 1 [3] None DOWN) 2 [3] None DOWN"

text \<open>S \<rightarrow> A \<rightarrow> B \<rightarrow> T with the feedback edge B \<rightarrow> A: the loop A, B lies on the route to T.\<close>

definition loop_world :: world where
  "loop_world =
     connect (connect (connect (connect quad_world 0 [1] None DOWN) 1 [2] None DOWN)
       2 [1] None DOWN) 2 [3] None DOWN"

text \<open>S \<rightarrow> A \<rightarrow> T with the loop A \<rightarrow> B \<rightarrow> A beside the route: B is on no path to T.\<close>

definition side_loop_world :: world where
  "side_loop_world =
     connect (connect (connect (connect quad_world 0 [1] None DOWN) 1 [2] None DOWN)
       2 [1] None DOWN) 1 [3] None DOWN"

text \<open>Two distinct segments that carry the same name, the first wired to the second.\<close>

definition twin_world :: world where
  "twin_world =
     connect (snd (Segment_init (snd (Segment_init world_init ''X'' (Finite 5))) ''X'' (Finite 7))) 0 [1] None DOWN"

text \<open>
  \<open>loop_world\<close> during a propagation: the source S holds the rate \<open>r\<close>, the two segments A and B
  of the loop hold the rate \<open>x\<close>.
\<close>

definition loop_state :: "pyfloat \<Rightarrow> pyfloat \<Rightarrow> world" where
  "loop_state r x =
     \<lparr>state_cache = [],
      objs =
        [\<lparr>name = ''S'', volume = Finite 0, u_flow_rate = r, u_state_ids = [],
          u_connections = [(''consistent'', \<lparr>children = [1], parents = []\<rparr>)]\<rparr>,
         \<lparr>name = ''A'', volume = Finite 10, u_flow_rate = x, u_state_ids = [],
          u_connections = [(''consistent'', \<lparr>children = [2], parents = [0, 2]\<rparr>)]\<rparr>,
         \<lparr>name = ''B'', volume = Finite 20, u_flow_rate = x, u_state_ids = [],
          u_connections = [(''consistent'', \<lparr>children = [1, 3], parents = [1]\<rparr>)]\<rparr>,
         \<lparr>name = ''T'', volume = Finite 30, u_flow_rate = Finite 0, u_state_ids = [],
          u_connections = [(''consistent'', \<lparr>children = [], parents = [2]\<rparr>)]\<rparr>],
      u_nodes = [(''A'', 1), (''S'', 0), (''B'', 2), (''T'', 3)]\<rparr>"

text \<open>A single segment whose volume is \<open>inf\<close> (\<open>Segment('Tank', float('inf'))\<close>).\<close>

definition tank_world :: world where
  "tank_world = snd (Segment_init world_init ''Tank'' PInf)"



section \<open>Floats: the divisions of the source never divide by zero\<close>

lemma duration_divisor_not_zero: "\<not> flt r (Finite (1 / 100000)) \<Longrightarrow> r \<noteq> Finite 0"
  by (cases r) auto

lemma py_min_cases: "py_min a b = a \<or> py_min a b = b"
  by (simp add: py_min_def)

lemma fold_py_min_mem: "fold (\<lambda>item min_item. py_min min_item item) xs x \<in> insert x (set xs)"
proof (induction xs arbitrary: x)
  case Nil
  then show ?case by simp
next
  case (Cons y ys)
  from Cons.IH [of "py_min x y"] py_min_cases [of x y] show ?case by auto
qed

lemma list_min_mem: "xs \<noteq> [] \<Longrightarrow> list_min xs \<in> set xs"
  using fold_py_min_mem [of "tl xs" "hd xs"] by (cases xs) (auto simp: list_min_def)

lemma ratio_divisor_not_zero:
  assumes "filter (\<lambda>r. fgt r (Finite 0)) rates \<noteq> []"
  shows "list_min (filter (\<lambda>r. fgt r (Finite 0)) rates) \<noteq> Finite 0"
proof -
  from list_min_mem [OF assms]
  have "fgt (list_min (filter (\<lambda>r. fgt r (Finite 0)) rates)) (Finite 0)" by simp
  then show ?thesis by (auto simp: fgt_def)
qed

section \<open>Basic facts about dictionaries, sets and edge sets\<close>

lemma set_set_add: "set (set_add x xs) = insert x (set xs)"
  by (auto simp: set_add_def)

lemma set_fold_set_add: "set (fold set_add ys xs) = set xs \<union> set ys"
  by (induction ys arbitrary: xs) (auto simp: set_set_add)

lemma set_set_union: "set (set_union xs ys) = set xs \<union> set ys"
  by (simp add: set_union_def set_fold_set_add)

lemma map_of_dict_setdefault:
  "map_of (dict_setdefault k v ps) k' =
     (if k' = k then (case map_of ps k of None \<Rightarrow> Some v | Some v' \<Rightarrow> Some v') else map_of ps k')"
  by (induction ps) (auto split: option.splits)

lemma map_of_dict_setitem:
  "map_of (dict_setitem k v ps) k' = (if k' = k then Some v else map_of ps k')"
  by (induction ps) auto

lemma map_of_dict_modify:
  "map_of (dict_modify k f ps) k' = (if k' = k then map_option f (map_of ps k) else map_of ps k')"
  by (induction ps) auto

lemma children_foldl_EdgeSet_add:
  "set (children (foldl EdgeSet_add a es)) = set (children a) \<union> (\<Union>e \<in> set es. set (children e))"
  by (induction es arbitrary: a) (auto simp: EdgeSet_add_def set_set_union)

lemma parents_foldl_EdgeSet_add:
  "set (parents (foldl EdgeSet_add a es)) = set (parents a) \<union> (\<Union>e \<in> set es. set (parents e))"
  by (induction es arbitrary: a) (auto simp: EdgeSet_add_def set_set_union)

lemma active_buckets_sub:
  "active_buckets cache conns ids = Inr es \<Longrightarrow> e \<in> set es \<Longrightarrow>
     e = EdgeSet_init \<or> e \<in> snd ` set conns"
proof (induction ids arbitrary: es)
  case Nil
  then show ?case by simp
next
  case (Cons i ids)
  then show ?case
    by (auto split: option.splits sum.splits dest!: map_of_SomeD simp: image_iff) force
qed

lemma active_buckets_mem:
  "active_buckets cache conns ids = Inr es \<Longrightarrow> g \<in> set ids \<Longrightarrow> map_of cache g = Some st \<Longrightarrow>
     (case map_of conns st of None \<Rightarrow> EdgeSet_init | Some e \<Rightarrow> e) \<in> set es"
  by (induction ids arbitrary: es) (auto split: option.splits sum.splits)

section \<open>Frame lemmas for the wiring operations\<close>

lemma upd_seg_frame [simp]:
  "state_cache (upd_seg w n f) = state_cache w"
  "u_nodes (upd_seg w n f) = u_nodes w"
  "length (objs (upd_seg w n f)) = length (objs w)"
  by (simp_all add: upd_seg_def)

lemma seg_upd_seg:
  "seg (upd_seg w n f) m = (if m = n \<and> n < length (objs w) then f (seg w n) else seg w m)"
  by (cases "n < length (objs w)") (auto simp: upd_seg_def seg_def not_less list_update_beyond)

lemma seg_field_update [simp]:
  "seg (w\<lparr>state_cache := c\<rparr>) = seg w"
  "seg (w\<lparr>u_nodes := r\<rparr>) = seg w"
  by (simp_all add: seg_def fun_eq_iff)

lemma Generic_add_child_frame:
  "state_cache (Generic_add_child w n c cid s) =
     (case cid of None \<Rightarrow> state_cache w | Some g \<Rightarrow> dict_setdefault g s (state_cache w))"
  "u_nodes (Generic_add_child w n c cid s) = u_nodes w"
  "length (objs (Generic_add_child w n c cid s)) = length (objs w)"
  by (simp_all add: Generic_add_child_def Let_def split: option.splits)

lemma Generic_add_parent_frame:
  "state_cache (Generic_add_parent w n c cid s) =
     (case cid of None \<Rightarrow> state_cache w | Some g \<Rightarrow> dict_setdefault g s (state_cache w))"
  "u_nodes (Generic_add_parent w n c cid s) = u_nodes w"
  "length (objs (Generic_add_parent w n c cid s)) = length (objs w)"
  by (simp_all add: Generic_add_parent_def Let_def split: option.splits)

lemma Generic_add_child_seg:
  "seg (Generic_add_child w n c cid s) m =
     (if m = n \<and> n < length (objs w)
      then (seg w n)
             \<lparr>u_state_ids := (case cid of None \<Rightarrow> u_state_ids (seg w n)
                               | Some g \<Rightarrow> set_add g (u_state_ids (seg w n))),
              u_connections := dict_modify s (\<lambda>e. e\<lparr>children := set_add c (children e)\<rparr>)
                                 (dict_setdefault s EdgeSet_init (u_connections (seg w n)))\<rparr>
      else seg w m)"
  by (cases "n < length (objs w)")
     (auto simp add: Generic_add_child_def Let_def seg_upd_seg split: option.splits)

lemma Generic_add_parent_seg:
  "seg (Generic_add_parent w n c cid s) m =
     (if m = n \<and> n < length (objs w)
      then (seg w n)
             \<lparr>u_state_ids := (case cid of None \<Rightarrow> u_state_ids (seg w n)
                               | Some g \<Rightarrow> set_add g (u_state_ids (seg w n))),
              u_connections := dict_modify s (\<lambda>e. e\<lparr>parents := set_add c (parents e)\<rparr>)
                                 (dict_setdefault s EdgeSet_init (u_connections (seg w n)))\<rparr>
      else seg w m)"
  by (cases "n < length (objs w)")
     (auto simp add: Generic_add_parent_def Let_def seg_upd_seg split: option.splits)

lemma u_add_child_frame:
  "state_cache (u_add_child w n c cid s) =
     (case cid of None \<Rightarrow> state_cache w | Some g \<Rightarrow> dict_setdefault g s (state_cache w))"
  "length (objs (u_add_child w n c cid s)) = length (objs w)"
  "seg (u_add_child w n c cid s) m = seg (Generic_add_child w n c cid s) m"
  by (simp_all add: u_add_child_def Let_def Generic_add_child_frame)

lemma u_add_parent_frame:
  "state_cache (u_add_parent w n c cid s) =
     (case cid of None \<Rightarrow> state_cache w | Some g \<Rightarrow> dict_setdefault g s (state_cache w))"
  "length (objs (u_add_parent w n c cid s)) = length (objs w)"
  "seg (u_add_parent w n c cid s) m = seg (Generic_add_parent w n c cid s) m"
  by (simp_all add: u_add_parent_def Let_def Generic_add_parent_frame)

lemma connect_down_single:
  "connect w self [target] (Some (g, s)) DOWN =
     u_add_parent (u_add_child w self target (Some g) s) target self (Some g) s"
  by (simp add: connect_def connect_target_def)

section \<open>The full view contains the resolved view\<close>

lemma connections_True:
  "connections w n True = Inr (foldl EdgeSet_add EdgeSet_init (map snd (u_connections (seg w n))))"
  by (simp add: connections_def)

lemma all_buckets_children:
  "set (children (foldl EdgeSet_add EdgeSet_init (map snd cs))) = (\<Union>e \<in> snd ` set cs. set (children e))"
  by (simp add: children_foldl_EdgeSet_add EdgeSet_init_def)

lemma all_buckets_parents:
  "set (parents (foldl EdgeSet_add EdgeSet_init (map snd cs))) = (\<Union>e \<in> snd ` set cs. set (parents e))"
  by (simp add: parents_foldl_EdgeSet_add EdgeSet_init_def)

lemma connections_False_sub:
  assumes "connections w n False = Inr r"
  shows "set (children r) \<subseteq> (\<Union>e \<in> snd ` set (u_connections (seg w n)). set (children e))"
    and "set (parents r) \<subseteq> (\<Union>e \<in> snd ` set (u_connections (seg w n)). set (parents e))"
proof -
  from assms obtain es start where
    es: "active_buckets (state_cache w) (u_connections (seg w n)) (u_state_ids (seg w n)) = Inr es"
    and start: "map_of (u_connections (seg w n)) CONSISTENT = Some start"
    and r: "r = foldl EdgeSet_add start es"
    by (auto simp: connections_def split: sum.splits option.splits)
  have start_in: "start \<in> snd ` set (u_connections (seg w n))"
    using map_of_SomeD [OF start] by force
  have each: "e = EdgeSet_init \<or> e \<in> snd ` set (u_connections (seg w n))" if "e \<in> set es" for e
    using active_buckets_sub [OF es that] .
  show "set (children r) \<subseteq> (\<Union>e \<in> snd ` set (u_connections (seg w n)). set (children e))"
  proof
    fix x assume "x \<in> set (children r)"
    then consider "x \<in> set (children start)" | e where "e \<in> set es" "x \<in> set (children e)"
      unfolding r children_foldl_EdgeSet_add by blast
    then show "x \<in> (\<Union>e \<in> snd ` set (u_connections (seg w n)). set (children e))"
    proof cases
      case 1
      with start_in show ?thesis by blast
    next
      case 2
      with each [of e] have "e \<in> snd ` set (u_connections (seg w n))"
        by (auto simp: EdgeSet_init_def)
      with 2 show ?thesis by blast
    qed
  qed
  show "set (parents r) \<subseteq> (\<Union>e \<in> snd ` set (u_connections (seg w n)). set (parents e))"
  proof
    fix x assume "x \<in> set (parents r)"
    then consider "x \<in> set (parents start)" | e where "e \<in> set es" "x \<in> set (parents e)"
      unfolding r parents_foldl_EdgeSet_add by blast
    then show "x \<in> (\<Union>e \<in> snd ` set (u_connections (seg w n)). set (parents e))"
    proof cases
      case 1
      with start_in show ?thesis by blast
    next
      case 2
      with each [of e] have "e \<in> snd ` set (u_connections (seg w n))"
        by (auto simp: EdgeSet_init_def)
      with 2 show ?thesis by blast
    qed
  qed
qed



section \<open>The example graphs in normal form\<close>

lemma Generic_add_child_eq:
  "Generic_add_child w n c cid s =
     w\<lparr>state_cache := (case cid of None \<Rightarrow> state_cache w | Some g \<Rightarrow> dict_setdefault g s (state_cache w)),
       objs := (objs w)[n := (objs w ! n)
                 \<lparr>u_state_ids := (case cid of None \<Rightarrow> u_state_ids (objs w ! n)
                                   | Some g \<Rightarrow> set_add g (u_state_ids (objs w ! n))),
                  u_connections := dict_modify s (\<lambda>e. e\<lparr>children := set_add c (children e)\<rparr>)
                                     (dict_setdefault s EdgeSet_init (u_connections (objs w ! n)))\<rparr>]\<rparr>"
  by (cases "n < length (objs w)")
     (auto simp: Generic_add_child_def Let_def upd_seg_def not_less list_update_beyond split: option.splits)

lemma Generic_add_parent_eq:
  "Generic_add_parent w n c cid s =
     w\<lparr>state_cache := (case cid of None \<Rightarrow> state_cache w | Some g \<Rightarrow> dict_setdefault g s (state_cache w)),
       objs := (objs w)[n := (objs w ! n)
                 \<lparr>u_state_ids := (case cid of None \<Rightarrow> u_state_ids (objs w ! n)
                                   | Some g \<Rightarrow> set_add g (u_state_ids (objs w ! n))),
                  u_connections := dict_modify s (\<lambda>e. e\<lparr>parents := set_add c (parents e)\<rparr>)
                                     (dict_setdefault s EdgeSet_init (u_connections (objs w ! n)))\<rparr>]\<rparr>"
  by (cases "n < length (objs w)")
     (auto simp: Generic_add_parent_def Let_def upd_seg_def not_less list_update_beyond split: option.splits)

lemma name_after_update:
  "name ((os[n := (os ! n)\<lparr>u_state_ids := i, u_connections := k\<rparr>]) ! c) = name (os ! c)"
  by (cases "n < length os"; cases "c = n") (simp_all add: not_less list_update_beyond)

lemma u_add_child_eq:
  "u_add_child w n c cid s =
     w\<lparr>state_cache := (case cid of None \<Rightarrow> state_cache w | Some g \<Rightarrow> dict_setdefault g s (state_cache w)),
       objs := (objs w)[n := (objs w ! n)
                 \<lparr>u_state_ids := (case cid of None \<Rightarrow> u_state_ids (objs w ! n)
                                   | Some g \<Rightarrow> set_add g (u_state_ids (objs w ! n))),
                  u_connections := dict_modify s (\<lambda>e. e\<lparr>children := set_add c (children e)\<rparr>)
                                     (dict_setdefault s EdgeSet_init (u_connections (objs w ! n)))\<rparr>],
       u_nodes := dict_setdefault (name (objs w ! c)) c (u_nodes w)\<rparr>"
  by (simp add: u_add_child_def Generic_add_child_eq seg_def name_after_update)

lemma u_add_parent_eq:
  "u_add_parent w n c cid s =
     w\<lparr>state_cache := (case cid of None \<Rightarrow> state_cache w | Some g \<Rightarrow> dict_setdefault g s (state_cache w)),
       objs := (objs w)[n := (objs w ! n)
                 \<lparr>u_state_ids := (case cid of None \<Rightarrow> u_state_ids (objs w ! n)
                                   | Some g \<Rightarrow> set_add g (u_state_ids (objs w ! n))),
                  u_connections := dict_modify s (\<lambda>e. e\<lparr>parents := set_add c (parents e)\<rparr>)
                                     (dict_setdefault s EdgeSet_init (u_connections (objs w ! n)))\<rparr>],
       u_nodes := dict_setdefault (name (objs w ! c)) c (u_nodes w)\<rparr>"
  by (simp add: u_add_parent_def Generic_add_parent_eq seg_def name_after_update)

lemmas build_defs = Segment_init_def world_init_def connect_def connect_target_def
  u_add_child_eq u_add_parent_eq set_add_def CONSISTENT_def EdgeSet_init_def

lemma pair_world_eq:
  "pair_world =
     \<lparr>state_cache = [],
      objs =
        [\<lparr>name = ''A'', volume = Finite 10, u_flow_rate = Finite 0, u_state_ids = [],
          u_connections = [(''consistent'', \<lparr>children = [], parents = []\<rparr>)]\<rparr>,
         \<lparr>name = ''B'', volume = Finite 20, u_flow_rate = Finite 0, u_state_ids = [],
          u_connections = [(''consistent'', \<lparr>children = [], parents = []\<rparr>)]\<rparr>],
      u_nodes = []\<rparr>"
  by (simp add: pair_world_def build_defs)

lemma valve_world_eq:
  "valve_world =
     \<lparr>state_cache = [(''valve'', ''open'')],
      objs =
        [\<lparr>name = ''A'', volume = Finite 10, u_flow_rate = Finite 0, u_state_ids = [''valve''],
          u_connections = [(''consistent'', \<lparr>children = [], parents = []\<rparr>),
                           (''open'', \<lparr>children = [1], parents = []\<rparr>)]\<rparr>,
         \<lparr>name = ''B'', volume = Finite 20, u_flow_rate = Finite 0, u_state_ids = [''valve''],
          u_connections = [(''consistent'', \<lparr>children = [], parents = []\<rparr>),
                           (''open'', \<lparr>children = [], parents = [0]\<rparr>)]\<rparr>],
      u_nodes = [(''B'', 1), (''A'', 0)]\<rparr>"
  by (simp add: valve_world_def pair_world_def build_defs)

lemmas query_defs = connections_def seg_def EdgeSet_add_def set_union_def set_add_def
  CONSISTENT_def EdgeSet_init_def fsub_def fgt_def py_max_def py_min_def list_max_def list_min_def

lemma valve_world_resolved:
  "connections valve_world 0 False = Inr \<lparr>children = [1], parents = []\<rparr>"
  by (simp add: valve_world_eq query_defs)

lemma valve_world_full:
  "connections valve_world 0 True = Inr \<lparr>children = [1], parents = []\<rparr>"
  by (simp add: valve_world_eq query_defs)

lemma triple_world_eq:
  "triple_world =
     \<lparr>state_cache = [],
      objs =
        [\<lparr>name = ''A'', volume = Finite 10, u_flow_rate = Finite 0, u_state_ids = [],
          u_connections = [(''consistent'', \<lparr>children = [], parents = []\<rparr>)]\<rparr>,
         \<lparr>name = ''B'', volume = Finite 20, u_flow_rate = Finite 0, u_state_ids = [],
          u_connections = [(''consistent'', \<lparr>children = [], parents = []\<rparr>)]\<rparr>,
         \<lparr>name = ''C'', volume = Finite 30, u_flow_rate = Finite 0, u_state_ids = [],
          u_connections = [(''consistent'', \<lparr>children = [], parents = []\<rparr>)]\<rparr>],
      u_nodes = []\<rparr>"
  by (simp add: triple_world_def build_defs)

lemma quad_world_eq:
  "quad_world =
     \<lparr>state_cache = [],
      objs =
        [\<lparr>name = ''S'', volume = Finite 0, u_flow_rate = Finite 0, u_state_ids = [],
          u_connections = [(''consistent'', \<lparr>children = [], parents = []\<rparr>)]\<rparr>,
         \<lparr>name = ''A'', volume = Finite 10, u_flow_rate = Finite 0, u_state_ids = [],
          u_connections = [(''consistent'', \<lparr>children = [], parents = []\<rparr>)]\<rparr>,
         \<lparr>name = ''B'', volume = Finite 20, u_flow_rate = Finite 0, u_state_ids = [],
          u_connections = [(''consistent'', \<lparr>children = [], parents = []\<rparr>)]\<rparr>,
         \<lparr>name = ''T'', volume = Finite 30, u_flow_rate = Finite 0, u_state_ids = [],
          u_connections = [(''consistent'', \<lparr>children = [], parents = []\<rparr>)]\<rparr>],
      u_nodes = []\<rparr>"
  by (simp add: quad_world_def build_defs)

lemma chain_world_eq:
  "chain_world =
     \<lparr>state_cache = [],
      objs =
        [\<lparr>name = ''A'', volume = Finite 10, u_flow_rate = Finite 0, u_state_ids = [],
          u_connections = [(''consistent'', \<lparr>children = [1], parents = []\<rparr>)]\<rparr>,
         \<lparr>name = ''B'', volume = Finite 20, u_flow_rate = Finite 0, u_state_ids = [],
          u_connections = [(''consistent'', \<lparr>children = [2], parents = [0]\<rparr>)]\<rparr>,
         \<lparr>name = ''C'', volume = Finite 30, u_flow_rate = Finite 0, u_state_ids = [],
          u_connections = [(''consistent'', \<lparr>children = [], parents = [1]\<rparr>)]\<rparr>],
      u_nodes = [(''B'', 1), (''A'', 0), (''C'', 2)]\<rparr>"
  by (simp add: chain_world_def triple_world_eq build_defs)

lemma diamond_world_eq:
  "diamond_world =
     \<lparr>state_cache = [],
      objs =
        [\<lparr>name = ''S'', volume = Finite 0, u_flow_rate = Finite 0, u_state_ids = [],
          u_connections = [(''consistent'', \<lparr>children = [1, 2], parents = []\<rparr>)]\<rparr>,
         \<lparr>name = ''A'', volume = Finite 10, u_flow_rate = Finite 0, u_state_ids = [],
          u_connections = [(''consistent'', \<lparr>children = [3], parents = [0]\<rparr>)]\<rparr>,
         \<lparr>name = ''B'', volume = Finite 20, u_flow_rate = Finite 0, u_state_ids = [],
          u_connections = [(''consistent'', \<lparr>children = [3], parents = [0]\<rparr>)]\<rparr>,
         \<lparr>name = ''T'', volume = Finite 30, u_flow_rate = Finite 0, u_state_ids = [],
          u_connections = [(''consistent'', \<lparr>children = [], parents = [1, 2]\<rparr>)]\<rparr>],
      u_nodes = [(''A'', 1), (''S'', 0), (''B'', 2), (''T'', 3)]\<rparr>"
  by (simp add: diamond_world_def quad_world_eq build_defs)

lemma loop_world_eq:
  "loop_world =
     \<lparr>state_cache = [],
      objs =
        [\<lparr>name = ''S'', volume = Finite 0, u_flow_rate = Finite 0, u_state_ids = [],
          u_connections = [(''consistent'', \<lparr>children = [1], parents = []\<rparr>)]\<rparr>,
         \<lparr>name = ''A'', volume = Finite 10, u_flow_rate = Finite 0, u_state_ids = [],
          u_connections = [(''consistent'', \<lparr>children = [2], parents = [0, 2]\<rparr>)]\<rparr>,
         \<lparr>name = ''B'', volume = Finite 20, u_flow_rate = Finite 0, u_state_ids = [],
          u_connections = [(''consistent'', \<lparr>children = [1, 3], parents = [1]\<rparr>)]\<rparr>,
         \<lparr>name = ''T'', volume = Finite 30, u_flow_rate = Finite 0, u_state_ids = [],
          u_connections = [(''consistent'', \<lparr>children = [], parents = [2]\<rparr>)]\<rparr>],
      u_nodes = [(''A'', 1), (''S'', 0), (''B'', 2), (''T'', 3)]\<rparr>"
  by (simp add: loop_world_def quad_world_eq build_defs)

lemma side_loop_world_eq:
  "side_loop_world =
     \<lparr>state_cache = [],
      objs =
        [\<lparr>name = ''S'', volume = Finite 0, u_flow_rate = Finite 0, u_state_ids = [],
          u_connections = [(''consistent'', \<lparr>children = [1], parents = []\<rparr>)]\<rparr>,
         \<lparr>name = ''A'', volume = Finite 10, u_flow_rate = Finite 0, u_state_ids = [],
          u_connections = [(''consistent'', \<lparr>children = [2, 3], parents = [0, 2]\<rparr>)]\<rparr>,
         \<lparr>name = ''B'', volume = Finite 20, u_flow_rate = Finite 0, u_state_ids = [],
          u_connections = [(''consistent'', \<lparr>children = [1], parents = [1]\<rparr>)]\<rparr>,
         \<lparr>name = ''T'', volume = Finite 30, u_flow_rate = Finite 0, u_state_ids = [],
          u_connections = [(''consistent'', \<lparr>children = [], parents = [1]\<rparr>)]\<rparr>],
      u_nodes = [(''A'', 1), (''S'', 0), (''B'', 2), (''T'', 3)]\<rparr>"
  by (simp add: side_loop_world_def quad_world_eq build_defs)

lemma twin_world_eq:
  "twin_world =
     \<lparr>state_cache = [],
      objs =
        [\<lparr>name = ''X'', volume = Finite 5, u_flow_rate = Finite 0, u_state_ids = [],
          u_connections = [(''consistent'', \<lparr>children = [1], parents = []\<rparr>)]\<rparr>,
         \<lparr>name = ''X'', volume = Finite 7, u_flow_rate = Finite 0, u_state_ids = [],
          u_connections = [(''consistent'', \<lparr>children = [], parents = [0]\<rparr>)]\<rparr>],
      u_nodes = [(''X'', 1)]\<rparr>"
  by (simp add: twin_world_def build_defs)

lemma switch_world_eq:
  "switch_world =
     \<lparr>state_cache = [(''valve'', ''open'')],
      objs =
        [\<lparr>name = ''A'', volume = Finite 10, u_flow_rate = Finite 0, u_state_ids = [''valve''],
          u_connections = [(''consistent'', \<lparr>children = [], parents = []\<rparr>),
                           (''open'', \<lparr>children = [1], parents = []\<rparr>),
                           (''shut'', \<lparr>children = [2], parents = []\<rparr>)]\<rparr>,
         \<lparr>name = ''B'', volume = Finite 20, u_flow_rate = Finite 0, u_state_ids = [''valve''],
          u_connections = [(''consistent'', \<lparr>children = [], parents = []\<rparr>),
                           (''open'', \<lparr>children = [], parents = [0]\<rparr>)]\<rparr>,
         \<lparr>name = ''C'', volume = Finite 30, u_flow_rate = Finite 0, u_state_ids = [''valve''],
          u_connections = [(''consistent'', \<lparr>children = [], parents = []\<rparr>),
                           (''shut'', \<lparr>children = [], parents = [0]\<rparr>)]\<rparr>],
      u_nodes = [(''B'', 1), (''A'', 0), (''C'', 2)]\<rparr>"
  by (simp add: switch_world_def triple_world_eq build_defs)

lemma switch_world_resolved:
  "connections switch_world 0 False = Inr \<lparr>children = [1], parents = []\<rparr>"
  by (simp add: switch_world_eq query_defs)

lemma switch_world_full:
  "connections switch_world 0 True = Inr \<lparr>children = [1, 2], parents = []\<rparr>"
  by (simp add: switch_world_eq query_defs)

section \<open>C8: the full view and the resolved view\<close>

text \<open>
  C8. For every node and any registry contents, whenever the resolved view
  \<open>connections(ignore_state=False)\<close> returns an EdgeSet, the full view
  \<open>connections(ignore_state=True)\<close> returns an EdgeSet that contains it on the children
  side and on the parents side.
\<close>

theorem connections_ignore_state_superset:
  assumes "connections w n False = Inr r"
  shows "\<exists>f. connections w n True = Inr f \<and>
             set (children r) \<subseteq> set (children f) \<and> set (parents r) \<subseteq> set (parents f)"
  using connections_False_sub [OF assms]
  by (simp add: connections_True all_buckets_children all_buckets_parents)

theorem connections_ignore_state_superset_witness:
  "connections switch_world 0 False = Inr \<lparr>children = [1], parents = []\<rparr> \<and>
   connections switch_world 0 True = Inr \<lparr>children = [1, 2], parents = []\<rparr> \<and>
   set (children \<lparr>children = [1], parents = []\<rparr>) \<subseteq> set (children \<lparr>children = [1, 2], parents = []\<rparr>) \<and>
   set (parents \<lparr>children = [1], parents = []\<rparr>) \<subseteq> set (parents \<lparr>children = [1, 2], parents = []\<rparr>)"
  using connections_ignore_state_superset [OF switch_world_resolved] switch_world_resolved
    switch_world_full
  by simp

section \<open>C1: what \<open>connect\<close> does to the state registry\<close>

lemma connections_False_mem:
  assumes r: "connections w n False = Inr r"
    and g: "g \<in> set (u_state_ids (seg w n))"
    and st: "map_of (state_cache w) g = Some st"
    and b: "map_of (u_connections (seg w n)) st = Some e"
  shows "set (children e) \<subseteq> set (children r)" and "set (parents e) \<subseteq> set (parents r)"
proof -
  from r obtain es start where
    es: "active_buckets (state_cache w) (u_connections (seg w n)) (u_state_ids (seg w n)) = Inr es"
    and r': "r = foldl EdgeSet_add start es"
    by (auto simp: connections_def split: sum.splits option.splits)
  from active_buckets_mem [OF es g st] b have "e \<in> set es" by simp
  then show "set (children e) \<subseteq> set (children r)" and "set (parents e) \<subseteq> set (parents r)"
    unfolding r' children_foldl_EdgeSet_add parents_foldl_EdgeSet_add by blast+
qed

lemma connect_down_cache:
  "map_of (state_cache (connect w self [target] (Some (g, s)) DOWN)) g =
     Some (case map_of (state_cache w) g of None \<Rightarrow> s | Some v \<Rightarrow> v)"
  by (simp add: connect_down_single u_add_parent_frame u_add_child_frame map_of_dict_setdefault
           split: option.splits)

lemma connect_down_self:
  assumes "self < length (objs w)"
  shows "g \<in> set (u_state_ids (seg (connect w self [target] (Some (g, s)) DOWN) self))"
    and "\<exists>e. map_of (u_connections (seg (connect w self [target] (Some (g, s)) DOWN) self)) s = Some e
             \<and> target \<in> set (children e)"
  using assms
  by (auto simp: connect_down_single u_add_parent_frame u_add_child_frame Generic_add_parent_seg
        Generic_add_child_seg Generic_add_child_frame set_set_add map_of_dict_modify map_of_dict_setdefault
        split: option.splits)

lemma connect_down_target:
  assumes "target < length (objs w)"
  shows "g \<in> set (u_state_ids (seg (connect w self [target] (Some (g, s)) DOWN) target))"
    and "\<exists>e. map_of (u_connections (seg (connect w self [target] (Some (g, s)) DOWN) target)) s = Some e
             \<and> self \<in> set (parents e)"
  using assms
  by (auto simp: connect_down_single u_add_parent_frame u_add_child_frame Generic_add_parent_seg
        Generic_add_child_seg Generic_add_child_frame set_set_add map_of_dict_modify map_of_dict_setdefault
        split: option.splits)

text \<open>
  C1 (as amended). Connecting \<open>self\<close> to \<open>target\<close> under \<open>(g, s)\<close> registers \<open>g\<close> on both
  endpoints and, through \<open>setdefault\<close>, installs \<open>s\<close> as the active value of \<open>g\<close> when \<open>g\<close>
  has none (an existing value is kept). So with no \<open>set_state\<close> call at all, after the first
  connection under \<open>(g, s)\<close> the bucket \<open>s\<close> is consulted: the resolved view of \<open>self\<close>
  contains \<open>target\<close> as a child.
\<close>

theorem connect_installs_default_state:
  assumes self: "self < length (objs w)" and target: "target < length (objs w)"
  shows "map_of (state_cache (connect w self [target] (Some (g, s)) DOWN)) g =
           Some (case map_of (state_cache w) g of None \<Rightarrow> s | Some v \<Rightarrow> v)
       \<and> g \<in> set (u_state_ids (seg (connect w self [target] (Some (g, s)) DOWN) self))
       \<and> g \<in> set (u_state_ids (seg (connect w self [target] (Some (g, s)) DOWN) target))
       \<and> (map_of (state_cache w) g = None \<longrightarrow>
            (\<forall>r. connections (connect w self [target] (Some (g, s)) DOWN) self False = Inr r
                   \<longrightarrow> target \<in> set (children r)))"
proof -
  let ?w = "connect w self [target] (Some (g, s)) DOWN"
  have cache: "map_of (state_cache ?w) g = Some (case map_of (state_cache w) g of None \<Rightarrow> s | Some v \<Rightarrow> v)"
    by (rule connect_down_cache)
  have ids: "g \<in> set (u_state_ids (seg ?w self))" "g \<in> set (u_state_ids (seg ?w target))"
    using connect_down_self(1) [OF self] connect_down_target(1) [OF target] by blast+
  have "target \<in> set (children r)"
    if none: "map_of (state_cache w) g = None" and r: "connections ?w self False = Inr r" for r
  proof -
    from cache none have st: "map_of (state_cache ?w) g = Some s" by simp
    from connect_down_self(2) [OF self] obtain e where
      e: "map_of (u_connections (seg ?w self)) s = Some e" and t: "target \<in> set (children e)"
      by blast
    from connections_False_mem(1) [OF r ids(1) st e] t show ?thesis by blast
  qed
  with cache ids show ?thesis by blast
qed

theorem connect_installs_default_state_witness:
  "0 < length (objs pair_world) \<and> 1 < length (objs pair_world) \<and>
   map_of (state_cache pair_world) ''valve'' = None \<and>
   map_of (state_cache (connect pair_world 0 [1] (Some (''valve'', ''open'')) DOWN)) ''valve'' = Some ''open'' \<and>
   ''valve'' \<in> set (u_state_ids (seg (connect pair_world 0 [1] (Some (''valve'', ''open'')) DOWN) 0)) \<and>
   ''valve'' \<in> set (u_state_ids (seg (connect pair_world 0 [1] (Some (''valve'', ''open'')) DOWN) 1)) \<and>
   connections (connect pair_world 0 [1] (Some (''valve'', ''open'')) DOWN) 0 False
     = Inr \<lparr>children = [1], parents = []\<rparr> \<and>
   1 \<in> set (children \<lparr>children = [1], parents = []\<rparr>)"
proof -
  have len: "0 < length (objs pair_world)" "1 < length (objs pair_world)"
    and none: "map_of (state_cache pair_world) ''valve'' = None"
    by (simp_all add: pair_world_eq)
  have r: "connections (connect pair_world 0 [1] (Some (''valve'', ''open'')) DOWN) 0 False
             = Inr \<lparr>children = [1], parents = []\<rparr>"
    using valve_world_resolved by (simp add: valve_world_def)
  from connect_installs_default_state [OF len, of "''valve''" "''open''"] len none r
  show ?thesis by simp
qed

text \<open>
  C1 as stated fails: in a world where A was wired to B under \<open>(valve, open)\<close> and no state was
  ever set, the registry holds \<open>open\<close> for \<open>valve\<close>, and the resolved view of A has the child B,
  which is not in the bucket \<open>CONSISTENT\<close> of A.
\<close>

theorem connect_installs_state_counterexample:
  "map_of (state_cache valve_world) ''valve'' = Some ''open'' \<and>
   map_of (u_connections (seg valve_world 0)) CONSISTENT = Some \<lparr>children = [], parents = []\<rparr> \<and>
   connections valve_world 0 False = Inr \<lparr>children = [1], parents = []\<rparr>"
  by (simp add: valve_world_eq query_defs)

section \<open>Traversal: the shape of the reported paths\<close>

lemma seq_results_Inr_mem:
  "seq_results rs = Inr ys \<Longrightarrow> x \<in> set ys \<Longrightarrow> \<exists>xs. Inr xs \<in> set rs \<and> x \<in> set xs"
proof (induction rs arbitrary: ys rule: seq_results.induct)
  case 1
  then show ?case by simp
next
  case (2 e rs)
  then show ?case by simp
next
  case (3 xs rs)
  then show ?case by (fastforce split: sum.splits)
qed

lemma seq_results_all_Inr:
  "(\<And>r. r \<in> set rs \<Longrightarrow> \<exists>xs. r = Inr xs) \<Longrightarrow> \<exists>ys. seq_results rs = Inr ys"
proof (induction rs rule: seq_results.induct)
  case 1
  then show ?case by simp
next
  case (2 e rs)
  then show ?case by force
next
  case (3 xs rs)
  then have "\<exists>ys. seq_results rs = Inr ys" by simp
  then show ?case by auto
qed

lemma seq_results_all_empty:
  "(\<And>r. r \<in> set rs \<Longrightarrow> r = Inr []) \<Longrightarrow> seq_results rs = Inr []"
proof (induction rs rule: seq_results.induct)
  case 1
  then show ?case by simp
next
  case (2 e rs)
  then show ?case by force
next
  case (3 xs rs)
  then have "seq_results rs = Inr []" by simp
  moreover from "3.prems" [of "Inr xs"] have "xs = []" by simp
  ultimately show ?case by simp
qed

declare u_traverse.simps [simp del]

lemma u_traverse_out: "\<not> self < N \<Longrightarrow> u_traverse sp target N visited path self = Inr []"
  by (simp add: u_traverse.simps)

lemma u_traverse_in:
  "self < N \<Longrightarrow>
   u_traverse sp target N visited path self =
     (case sp self of
        Inl e \<Rightarrow> Inl e
      | Inr nbrs \<Rightarrow>
          (case seq_results
                  (map (\<lambda>subgraph.
                          if subgraph \<in> insert self visited then Inr []
                          else u_traverse sp target N (insert self visited) (path @ [self]) subgraph)
                     nbrs) of
             Inl e \<Rightarrow> Inl e
           | Inr found \<Rightarrow> Inr ((if target self then [(self, path @ [self])] else []) @ found)))"
  by (subst u_traverse.simps) simp

text \<open>Every reported pair: the path extends the entry path by a repetition-free chain of
  steps from \<open>self\<close> to the match, which avoids the visited set.\<close>

lemma u_traverse_paths:
  "u_traverse sp target N visited path self = Inr rs \<Longrightarrow> (m, p) \<in> set rs \<Longrightarrow>
     \<exists>q. p = path @ self # q \<and> distinct (self # q) \<and> set q \<inter> insert self visited = {}
        \<and> successively (step sp) (self # q) \<and> set (self # q) \<subseteq> {..<N}
        \<and> last (self # q) = m \<and> target m"
proof (induction sp target N visited path self arbitrary: rs m p rule: u_traverse.induct)
  case (1 sp target N visited path self)
  show ?case
  proof (cases "self < N")
    case False
    with "1.prems" show ?thesis by (simp add: u_traverse_out)
  next
    case True
    with "1.prems"(1) obtain nbrs found where
      nbrs: "sp self = Inr nbrs"
      and found: "seq_results
                    (map (\<lambda>subgraph.
                            if subgraph \<in> insert self visited then Inr []
                            else u_traverse sp target N (insert self visited) (path @ [self]) subgraph)
                       nbrs) = Inr found"
      and rs: "rs = (if target self then [(self, path @ [self])] else []) @ found"
      by (auto simp: u_traverse_in split: sum.splits)
    from "1.prems"(2) rs consider
      (here) "target self" "(m, p) = (self, path @ [self])" | (deeper) "(m, p) \<in> set found"
      by (auto split: if_splits)
    then show ?thesis
    proof cases
      case here
      with True show ?thesis by simp
    next
      case deeper
      from seq_results_Inr_mem [OF found deeper] obtain xs where
        in_map: "Inr xs \<in> set (map (\<lambda>subgraph.
                            if subgraph \<in> insert self visited then Inr []
                            else u_traverse sp target N (insert self visited) (path @ [self]) subgraph)
                       nbrs)"
        and mem: "(m, p) \<in> set xs"
        by blast
      from in_map obtain sub where
        sub: "sub \<in> set nbrs"
        and xs: "(if sub \<in> insert self visited then Inr []
                  else u_traverse sp target N (insert self visited) (path @ [self]) sub) = Inr xs"
        unfolding set_map image_iff by metis
      from xs mem have new: "sub \<notin> insert self visited"
        and call: "u_traverse sp target N (insert self visited) (path @ [self]) sub = Inr xs"
        by (auto split: if_splits)
      from "1.IH" [OF _ nbrs sub new call mem] True obtain q where
        q: "p = (path @ [self]) @ sub # q" "distinct (sub # q)"
           "set q \<inter> insert sub (insert self visited) = {}"
           "successively (step sp) (sub # q)" "set (sub # q) \<subseteq> {..<N}"
           "last (sub # q) = m" "target m"
        by auto
      have "step sp self sub" using nbrs sub by (simp add: step_def)
      with q new True show ?thesis
        by (intro exI [of _ "sub # q"]) auto
    qed
  qed
qed

lemma successively_step_rtrancl:
  "successively (step sp) (a # q) \<Longrightarrow> x \<in> set (a # q) \<Longrightarrow> (a, x) \<in> {(a, b). step sp a b}\<^sup>*"
proof (induction q arbitrary: a)
  case Nil
  then show ?case by simp
next
  case (Cons b q)
  from Cons.prems(1) have ab: "step sp a b" and rest: "successively (step sp) (b # q)"
    by simp_all
  show ?case
  proof (cases "x = a")
    case True
    then show ?thesis by simp
  next
    case False
    with Cons.prems(2) have "x \<in> set (b # q)" by simp
    from Cons.IH [OF rest this] have "(b, x) \<in> {(a, b). step sp a b}\<^sup>*" .
    moreover from ab have "(a, b) \<in> {(a, b). step sp a b}" by simp
    ultimately show ?thesis by (rule converse_rtrancl_into_rtrancl [rotated])
  qed
qed

lemma finite_reachable: "finite (reachable sp N start)"
  by (rule finite_subset [of _ "{..<N}"]) (auto simp: reachable_def)

lemma u_traverse_top:
  assumes "u_traverse sp target N {} [] start = Inr rs" and "(m, p) \<in> set rs"
  shows "distinct p \<and> p \<noteq> [] \<and> hd p = start \<and> last p = m \<and> target m
         \<and> set p \<subseteq> reachable sp N start \<and> length p \<le> card (reachable sp N start)"
proof -
  from u_traverse_paths [OF assms] obtain q where
    q: "p = start # q" "distinct (start # q)" "successively (step sp) (start # q)"
       "set (start # q) \<subseteq> {..<N}" "last (start # q) = m" "target m"
    by auto
  have sub: "set p \<subseteq> reachable sp N start"
  proof
    fix x assume x: "x \<in> set p"
    with q(1) have "x \<in> set (start # q)" by simp
    from successively_step_rtrancl [OF q(3) this] q(4) \<open>x \<in> set (start # q)\<close>
    show "x \<in> reachable sp N start" by (auto simp: reachable_def)
  qed
  have "length p = card (set p)" using q(1,2) by (simp add: distinct_card)
  also have "\<dots> \<le> card (reachable sp N start)"
    by (rule card_mono [OF finite_reachable sub])
  finally show ?thesis using q sub by simp
qed

lemmas traverse_defs = traverse_def u_traverse_in u_traverse_out space_def

lemma diamond_visits:
  "traverse diamond_world 0 (Some every_node) DOWN False =
     Inr [(0, [0]), (1, [0, 1]), (3, [0, 1, 3]), (2, [0, 2]), (3, [0, 2, 3])]"
  by (simp add: diamond_world_eq traverse_defs query_defs every_node_def)

section \<open>C4: simple paths\<close>

text \<open>
  C4 (as amended). In one \<open>traverse\<close> call no node occurs twice on a reported path: every
  reported path starts at the start node, ends at its match, has no repetition and runs
  through nodes reachable from the start, so its length is at most the number of reachable
  nodes, also on a topology with cycles. (The search is a total function: it ends on every
  graph.) A node may still be visited again along another path.
\<close>

theorem traverse_paths_simple:
  assumes "traverse w start condition direction ignore_state = Inr rs" and "(m, p) \<in> set rs"
  shows "distinct p \<and> hd p = start \<and> last p = m
         \<and> set p \<subseteq> reachable (space w direction ignore_state) (length (objs w)) start
         \<and> length p \<le> card (reachable (space w direction ignore_state) (length (objs w)) start)"
  using u_traverse_top [OF assms [unfolded traverse_def]] by simp

theorem traverse_paths_simple_witness:
  "traverse diamond_world 0 (Some every_node) DOWN False =
     Inr [(0, [0]), (1, [0, 1]), (3, [0, 1, 3]), (2, [0, 2]), (3, [0, 2, 3])] \<and>
   (3, [0, 2, 3]) \<in> set [(0, [0]), (1, [0, 1]), (3, [0, 1, 3]), (2, [0, 2]), (3, [0, 2, 3 :: nat])] \<and>
   distinct [0, 2, 3 :: nat] \<and> hd [0, 2, 3 :: nat] = 0 \<and> last [0, 2, 3 :: nat] = 3 \<and>
   set [0, 2, 3] \<subseteq> reachable (space diamond_world DOWN False) (length (objs diamond_world)) 0 \<and>
   length [0, 2, 3 :: nat] \<le> card (reachable (space diamond_world DOWN False) (length (objs diamond_world)) 0)"
proof -
  have mem: "(3, [0, 2, 3]) \<in> set [(0, [0]), (1, [0, 1]), (3, [0, 1, 3]), (2, [0, 2]), (3 :: nat, [0, 2, 3 :: nat])]"
    by simp
  from traverse_paths_simple [OF diamond_visits mem] diamond_visits mem
  show ?thesis by simp
qed

text \<open>
  C4 as stated fails: in the diamond S \<rightarrow> A \<rightarrow> T, S \<rightarrow> B \<rightarrow> T one call visits T twice, once
  along each route (with the condition that holds of every node, each visit is reported).
\<close>

theorem traverse_revisits_counterexample:
  "traverse diamond_world 0 (Some every_node) DOWN False =
     Inr [(0, [0]), (1, [0, 1]), (3, [0, 1, 3]), (2, [0, 2]), (3, [0, 2, 3])] \<and>
   \<not> distinct (map fst [(0, [0]), (1, [0, 1]), (3, [0, 1, 3]), (2, [0, 2]), (3 :: nat, [0, 2, 3 :: nat])])"
  using diamond_visits by simp

section \<open>C2: the default condition of \<open>traverse\<close>\<close>

lemma traverse_default_empty:
  assumes "traverse w self None direction ignore_state = Inr rs"
  shows "rs = []"
proof (cases rs)
  case Nil
  then show ?thesis .
next
  case (Cons r rs')
  obtain m p where "r = (m, p)" by (cases r)
  with Cons have "(m, p) \<in> set rs" by simp
  from u_traverse_paths [OF assms [unfolded traverse_def] this]
  have "default_condition w m" by auto
  then show ?thesis by (simp add: default_condition_def method_object_truth_def)
qed

lemma chain_default:
  "traverse chain_world 0 None DOWN False = Inr []"
  by (simp add: chain_world_eq traverse_defs query_defs default_condition_def method_object_truth_def)

lemma chain_leaves:
  "traverse chain_world 0 (Some (\<lambda>n. has_children chain_world n False = Inr 0)) DOWN False
     = Inr [(2, [0, 1, 2])]"
  by (simp add: chain_world_eq traverse_defs query_defs has_children_def)

text \<open>
  C2, evaluated on the chain A \<rightarrow> B \<rightarrow> C: \<open>traverse\<close> from A with no condition returns the
  empty list, although C has no children and the search with the condition "the node has no
  children" finds C with the path A, B, C.
\<close>

theorem traverse_default_finds_no_leaf:
  "traverse chain_world 0 None DOWN False = Inr [] \<and>
   has_children chain_world 2 False = Inr 0 \<and>
   traverse chain_world 0 (Some (\<lambda>n. has_children chain_world n False = Inr 0)) DOWN False
     = Inr [(2, [0, 1, 2])]"
  using chain_default chain_leaves by (simp add: chain_world_eq query_defs has_children_def)
section \<open>No \<open>KeyError\<close> in a world that the constructor and \<open>connect\<close> built\<close>

lemma active_buckets_ok:
  "list_all (\<lambda>g. map_of cache g \<noteq> None) ids \<Longrightarrow> \<exists>es. active_buckets cache conns ids = Inr es"
  by (induction ids) auto

lemma cache_ok_connections:
  assumes "cache_ok w" and "n < length (objs w)"
  shows "\<exists>r. connections w n ignore_state = Inr r"
proof (cases ignore_state)
  case True
  then show ?thesis by (simp add: connections_True)
next
  case False
  from assms have ids: "list_all (\<lambda>g. map_of (state_cache w) g \<noteq> None) (u_state_ids (seg w n))"
    and start: "map_of (u_connections (seg w n)) CONSISTENT \<noteq> None"
    by (auto simp: cache_ok_def list_all_length seg_def)
  from active_buckets_ok [OF ids] obtain es where
    "active_buckets (state_cache w) (u_connections (seg w n)) (u_state_ids (seg w n)) = Inr es"
    by blast
  with start False show ?thesis by (auto simp: connections_def)
qed

lemma cache_ok_space:
  assumes "cache_ok w" and "n < length (objs w)"
  shows "\<exists>xs. space w direction ignore_state n = Inr xs"
  using cache_ok_connections [OF assms, of ignore_state] by (auto simp: space_def Let_def)

lemma u_traverse_total:
  "\<forall>n<N. \<exists>xs. sp n = Inr xs \<Longrightarrow> \<exists>rs. u_traverse sp target N visited path self = Inr rs"
proof (induction sp target N visited path self rule: u_traverse.induct)
  case (1 sp target N visited path self)
  note ok = "1.prems"
  show ?case
  proof (cases "self < N")
    case False
    then show ?thesis by (simp add: u_traverse_out)
  next
    case True
    from ok True obtain nbrs where nbrs: "sp self = Inr nbrs" by blast
    have "\<exists>xs. r = Inr xs"
      if "r \<in> set (map (\<lambda>subgraph.
                            if subgraph \<in> insert self visited then Inr []
                            else u_traverse sp target N (insert self visited) (path @ [self]) subgraph)
                       nbrs)" for r
    proof -
      from that obtain sub where sub: "sub \<in> set nbrs"
        and r: "r = (if sub \<in> insert self visited then Inr []
                     else u_traverse sp target N (insert self visited) (path @ [self]) sub)"
        by auto
      show ?thesis
      proof (cases "sub \<in> insert self visited")
        case True
        with r show ?thesis by simp
      next
        case False
        from "1.IH" [OF _ nbrs sub False ok] True r False show ?thesis by simp
      qed
    qed
    from seq_results_all_Inr [OF this] obtain found where
      "seq_results (map (\<lambda>subgraph.
                            if subgraph \<in> insert self visited then Inr []
                            else u_traverse sp target N (insert self visited) (path @ [self]) subgraph)
                       nbrs) = Inr found"
      by blast
    with True nbrs show ?thesis by (simp add: u_traverse_in)
  qed
qed

lemma cache_ok_traverse:
  assumes "cache_ok w"
  shows "\<exists>rs. traverse w self condition direction ignore_state = Inr rs"
  unfolding traverse_def using cache_ok_space [OF assms] by (intro u_traverse_total) blast

lemma chain_cache_ok: "cache_ok chain_world"
  by (simp add: chain_world_eq cache_ok_def CONSISTENT_def)

lemma chain_to_C:
  "traverse chain_world 0 (Some (\<lambda>n. name (seg chain_world n) = ''C'')) DOWN False = Inr [(2, [0, 1, 2])]"
  by (simp add: chain_world_eq traverse_defs query_defs)

text \<open>The constructor, \<open>set_state\<close> and \<open>connect\<close> keep \<open>cache_ok\<close>; the empty world has it.\<close>

lemma cache_ok_iff:
  "cache_ok w \<longleftrightarrow>
     (\<forall>n < length (objs w).
        (\<forall>g \<in> set (u_state_ids (objs w ! n)). map_of (state_cache w) g \<noteq> None)
        \<and> map_of (u_connections (objs w ! n)) CONSISTENT \<noteq> None)"
  unfolding cache_ok_def list_all_iff all_set_conv_all_nth [of "objs w"] by simp

lemma map_of_setdefault_mono: "map_of ps k \<noteq> None \<Longrightarrow> map_of (dict_setdefault k' v ps) k \<noteq> None"
  by (simp add: map_of_dict_setdefault split: option.splits)

lemma map_of_setitem_mono: "map_of ps k \<noteq> None \<Longrightarrow> map_of (dict_setitem k' v ps) k \<noteq> None"
  by (simp add: map_of_dict_setitem)

lemma map_of_modify_setdefault_mono:
  "map_of ps k \<noteq> None \<Longrightarrow> map_of (dict_modify k' f (dict_setdefault k' v ps)) k \<noteq> None"
  by (simp add: map_of_dict_modify map_of_dict_setdefault split: option.splits)

lemma cache_ok_world_init: "cache_ok world_init"
  by (simp add: cache_ok_def world_init_def)

lemma cache_ok_Segment_init: "cache_ok w \<Longrightarrow> cache_ok (snd (Segment_init w nm vol))"
  by (simp add: cache_ok_def Segment_init_def)

lemma cache_ok_set_state: "cache_ok w \<Longrightarrow> cache_ok (set_state w g st)"
  by (auto simp: cache_ok_iff set_state_def map_of_dict_setitem)

lemma cache_ok_update:
  assumes ok: "cache_ok w"
    and cache: "\<And>k. map_of (state_cache w) k \<noteq> None \<Longrightarrow> map_of c' k \<noteq> None"
    and ids: "\<And>g. g \<in> set ids' \<Longrightarrow> g \<in> set (u_state_ids (objs w ! n)) \<or> map_of c' g \<noteq> None"
    and conns: "map_of (u_connections (objs w ! n)) CONSISTENT \<noteq> None \<Longrightarrow> map_of conns' CONSISTENT \<noteq> None"
  shows "cache_ok (w\<lparr>state_cache := c',
                     objs := (objs w)[n := (objs w ! n)\<lparr>u_state_ids := ids', u_connections := conns'\<rparr>],
                     u_nodes := r\<rparr>)"
  unfolding cache_ok_iff
proof (intro allI impI)
  fix m
  assume "m < length (objs (w\<lparr>state_cache := c',
                     objs := (objs w)[n := (objs w ! n)\<lparr>u_state_ids := ids', u_connections := conns'\<rparr>],
                     u_nodes := r\<rparr>))"
  then have m: "m < length (objs w)" by simp
  with ok have old: "\<forall>g \<in> set (u_state_ids (objs w ! m)). map_of (state_cache w) g \<noteq> None"
    "map_of (u_connections (objs w ! m)) CONSISTENT \<noteq> None"
    by (simp_all add: cache_ok_iff)
  show "(\<forall>g \<in> set (u_state_ids (objs (w\<lparr>state_cache := c',
                     objs := (objs w)[n := (objs w ! n)\<lparr>u_state_ids := ids', u_connections := conns'\<rparr>],
                     u_nodes := r\<rparr>) ! m)).
           map_of (state_cache (w\<lparr>state_cache := c',
                     objs := (objs w)[n := (objs w ! n)\<lparr>u_state_ids := ids', u_connections := conns'\<rparr>],
                     u_nodes := r\<rparr>)) g \<noteq> None)
        \<and> map_of (u_connections (objs (w\<lparr>state_cache := c',
                     objs := (objs w)[n := (objs w ! n)\<lparr>u_state_ids := ids', u_connections := conns'\<rparr>],
                     u_nodes := r\<rparr>) ! m)) CONSISTENT \<noteq> None"
  proof (cases "m = n")
    case True
    have "map_of c' g \<noteq> None" if "g \<in> set ids'" for g
      using ids [OF that] old(1) cache True by blast
    moreover have "map_of conns' CONSISTENT \<noteq> None"
      using conns old(2) True by blast
    ultimately show ?thesis using m True by simp
  next
    case False
    with m old cache show ?thesis by (auto simp del: not_None_eq)
  qed
qed

lemma cache_ok_u_add_child: "cache_ok w \<Longrightarrow> cache_ok (u_add_child w n c cid s)"
  unfolding u_add_child_eq
  by (rule cache_ok_update)
     (auto simp: set_set_add map_of_dict_setdefault map_of_dict_modify split: option.splits)

lemma cache_ok_u_add_parent: "cache_ok w \<Longrightarrow> cache_ok (u_add_parent w n c cid s)"
  unfolding u_add_parent_eq
  by (rule cache_ok_update)
     (auto simp: set_set_add map_of_dict_setdefault map_of_dict_modify split: option.splits)

lemma cache_ok_connect_target: "cache_ok w \<Longrightarrow> cache_ok (connect_target self fs direction target w)"
  by (simp add: connect_target_def Let_def cache_ok_u_add_child cache_ok_u_add_parent)

lemma cache_ok_connect: "cache_ok w \<Longrightarrow> cache_ok (connect w self targets for_state direction)"
proof -
  have "cache_ok w \<Longrightarrow> cache_ok (fold (connect_target self fs direction) targets w)" for fs
    by (induction targets arbitrary: w) (simp_all add: cache_ok_connect_target)
  then show "cache_ok w \<Longrightarrow> cache_ok (connect w self targets for_state direction)"
    by (simp add: connect_def Let_def)
qed

section \<open>C5: the three outcomes of \<open>volume_to\<close>\<close>

text \<open>
  C5. In a world where every registered state-group id has a value (so that the search
  raises no \<open>KeyError\<close>), for every start node, target name and direction the search for the
  named target returns a list \<open>ts\<close> of (match, path) pairs, and \<open>volume_to\<close> returns absent
  exactly when \<open>ts\<close> is empty, raises \<open>RuntimeError\<close> (the ambiguous-path error) exactly when
  \<open>ts\<close> has more than one pair, and otherwise returns the sum of the volumes on the one
  path minus the volume of the match; absent is not the volume 0.
\<close>

theorem volume_to_outcomes:
  assumes "cache_ok w"
  shows "\<exists>ts. traverse w self (Some (\<lambda>n. name (seg w n) = target_name)) direction False = Inr ts
           \<and> (volume_to w self target_name direction = Inr None \<longleftrightarrow> ts = [])
           \<and> (volume_to w self target_name direction = Inl RuntimeError \<longleftrightarrow> 1 < length ts)
           \<and> (length ts = 1 \<longrightarrow>
                volume_to w self target_name direction =
                  Inr (Some (fsub (foldl (\<lambda>v segment. fadd v (volume (seg w segment))) (Finite 0)
                                     (snd (hd ts)))
                                  (volume (seg w (fst (hd ts)))))))
           \<and> (Inr None :: error + pyfloat option) \<noteq> Inr (Some (Finite 0))"
proof -
  from cache_ok_traverse [OF assms] obtain ts where
    ts: "traverse w self (Some (\<lambda>n. name (seg w n) = target_name)) direction False = Inr ts"
    by blast
  show ?thesis
  proof (cases ts)
    case Nil
    with ts show ?thesis by (simp add: volume_to_def)
  next
    case (Cons r other)
    obtain final path where r: "r = (final, path)" by (cases r)
    show ?thesis
    proof (cases other)
      case Nil
      with ts Cons r show ?thesis by (simp add: volume_to_def)
    next
      case (Cons r' other')
      with ts \<open>ts = r # other\<close> r show ?thesis by (simp add: volume_to_def)
    qed
  qed
qed


theorem volume_to_outcomes_witness:
  "cache_ok chain_world \<and>
   traverse chain_world 0 (Some (\<lambda>n. name (seg chain_world n) = ''C'')) DOWN False = Inr [(2, [0, 1, 2])] \<and>
   length [(2 :: nat, [0, 1, 2 :: nat])] = 1 \<and>
   volume_to chain_world 0 ''C'' DOWN = Inr (Some (Finite 30))"
  using volume_to_outcomes [OF chain_cache_ok, of 0 "''C''" DOWN] chain_cache_ok chain_to_C
  by (simp add: chain_world_eq seg_def fsub_def)

section \<open>C9: the volume from a node to itself\<close>

lemma reachable_step:
  assumes "step sp a b" and "(b, m) \<in> {(a, b). step sp a b}\<^sup>*"
  shows "(a, m) \<in> {(a, b). step sp a b}\<^sup>*"
  using assms by (auto intro: converse_rtrancl_into_rtrancl)

text \<open>
  C9 (as amended). For every node X of a world that raises no \<open>KeyError\<close>, under every state
  configuration and direction, also when X lies on a cycle: provided the volume of X is
  finite and no other node that the search can reach from X carries the name of X, the
  search for that name finds exactly the match X with the path [X], and
  \<open>X.volume_to(X.name)\<close> returns 0. (The sum \<open>0.0 + v\<close> and the difference \<open>v - v\<close> are exact for
  every finite float \<open>v\<close>, so here the model computes what the floats compute.)
\<close>

theorem volume_to_self:
  assumes ok: "cache_ok w" and X: "X < length (objs w)"
    and fin: "is_finite (volume (seg w X))"
    and uniq: "\<forall>m \<in> reachable (space w direction False) (length (objs w)) X.
                 name (seg w m) = name (seg w X) \<longrightarrow> m = X"
  shows "traverse w X (Some (\<lambda>n. name (seg w n) = name (seg w X))) direction False = Inr [(X, [X])]
       \<and> volume_to w X (name (seg w X)) direction = Inr (Some (Finite 0))"
proof -
  let ?sp = "space w direction False" and ?N = "length (objs w)"
  let ?tg = "\<lambda>n. name (seg w n) = name (seg w X)"
  let ?f = "\<lambda>subgraph. if subgraph \<in> insert X {} then Inr []
                       else u_traverse ?sp ?tg ?N (insert X {}) ([] @ [X]) subgraph"
  from cache_ok_space [OF ok X] obtain nbrs where nbrs: "?sp X = Inr nbrs" by blast
  have "r = Inr []" if "r \<in> set (map ?f nbrs)" for r
  proof -
    from that obtain sub where sub: "sub \<in> set nbrs" and r: "r = ?f sub" by auto
    show ?thesis
    proof (cases "sub \<in> insert X {}")
      case True
      with r show ?thesis by simp
    next
      case False
      from cache_ok_space [OF ok] have "\<forall>n<?N. \<exists>xs. ?sp n = Inr xs" by blast
      from u_traverse_total [OF this] obtain xs where
        xs: "u_traverse ?sp ?tg ?N (insert X {}) ([] @ [X]) sub = Inr xs" by blast
      have "xs = []"
      proof (rule ccontr)
        assume "xs \<noteq> []"
        then obtain m p where mem: "(m, p) \<in> set xs" by (cases xs) auto
        from u_traverse_paths [OF xs mem] obtain q where
          q: "set q \<inter> insert sub (insert X {}) = {}" "successively (step ?sp) (sub # q)"
             "set (sub # q) \<subseteq> {..<?N}" "last (sub # q) = m" "?tg m"
          by auto
        have m_in: "m \<in> set (sub # q)" using q(4) last_in_set [of "sub # q"] by simp
        from successively_step_rtrancl [OF q(2) m_in]
        have "(sub, m) \<in> {(a, b). step ?sp a b}\<^sup>*" .
        moreover have "step ?sp X sub" using nbrs sub by (simp add: step_def)
        ultimately have "(X, m) \<in> {(a, b). step ?sp a b}\<^sup>*" by (rule reachable_step [rotated])
        moreover from m_in q(3) have "m < ?N" by auto
        ultimately have "m \<in> reachable ?sp ?N X" by (simp add: reachable_def)
        with uniq q(5) have "m = X" by blast
        with m_in q(1) False show False by auto
      qed
      with r False xs show ?thesis by simp
    qed
  qed
  from seq_results_all_empty [OF this] have "seq_results (map ?f nbrs) = Inr []" .
  with X nbrs have tr: "traverse w X (Some ?tg) direction False = Inr [(X, [X])]"
    by (simp add: traverse_def u_traverse_in)
  from fin obtain v where "volume (seg w X) = Finite v" by (cases "volume (seg w X)") simp_all
  with tr show ?thesis by (simp add: volume_to_def fsub_def)
qed

lemma loop_cache_ok: "cache_ok loop_world"
  by (simp add: loop_world_eq cache_ok_def CONSISTENT_def)

lemma less_4_cases: "(m :: nat) < 4 \<Longrightarrow> m = 0 \<or> m = 1 \<or> m = 2 \<or> m = 3"
  by arith

theorem volume_to_self_witness:
  "cache_ok loop_world \<and> 1 < length (objs loop_world) \<and> volume (seg loop_world 1) = Finite 10 \<and>
   is_finite (Finite 10) \<and>
   step (space loop_world DOWN False) 1 2 \<and> step (space loop_world DOWN False) 2 1 \<and>
   traverse loop_world 1 (Some (\<lambda>n. name (seg loop_world n) = name (seg loop_world 1))) DOWN False
     = Inr [(1, [1])] \<and>
   volume_to loop_world 1 (name (seg loop_world 1)) DOWN = Inr (Some (Finite 0))"
proof -
  have len: "1 < length (objs loop_world)" "length (objs loop_world) = 4"
    by (simp_all add: loop_world_eq)
  have uniq: "\<forall>m \<in> reachable (space loop_world DOWN False) (length (objs loop_world)) 1.
                 name (seg loop_world m) = name (seg loop_world 1) \<longrightarrow> m = 1"
  proof
    fix m assume "m \<in> reachable (space loop_world DOWN False) (length (objs loop_world)) 1"
    then have "m < 4" by (simp add: reachable_def len)
    from less_4_cases [OF this]
    show "name (seg loop_world m) = name (seg loop_world 1) \<longrightarrow> m = 1"
      by (auto simp: loop_world_eq seg_def)
  qed
  have cyc: "step (space loop_world DOWN False) 1 2" "step (space loop_world DOWN False) 2 1"
    by (simp_all add: step_def space_def loop_world_eq query_defs)
  have vol: "volume (seg loop_world 1) = Finite 10" by (simp add: loop_world_eq seg_def)
  then have fin: "is_finite (volume (seg loop_world 1))" by simp
  from volume_to_self [OF loop_cache_ok len(1) fin uniq] loop_cache_ok len(1) cyc vol
  show ?thesis by simp
qed

lemma tank_world_eq:
  "tank_world =
     \<lparr>state_cache = [],
      objs =
        [\<lparr>name = ''Tank'', volume = PInf, u_flow_rate = Finite 0, u_state_ids = [],
          u_connections = [(''consistent'', \<lparr>children = [], parents = []\<rparr>)]\<rparr>],
      u_nodes = []\<rparr>"
  by (simp add: tank_world_def build_defs)

text \<open>
  C9 as stated fails in two ways. When a second segment with the name of X is reachable from
  X, two matches are found and \<open>volume_to\<close> raises \<open>RuntimeError\<close>. When the volume of X is
  \<open>inf\<close>, the one match X is found with the path [X], and the result \<open>(0.0 + inf) - inf\<close> is
  \<open>nan\<close>, not 0.
\<close>

theorem volume_to_self_counterexample:
  "name (seg twin_world 0) = ''X'' \<and> volume_to twin_world 0 ''X'' DOWN = Inl RuntimeError \<and>
   name (seg tank_world 0) = ''Tank'' \<and> volume (seg tank_world 0) = PInf \<and>
   volume_to tank_world 0 ''Tank'' DOWN = Inr (Some NaN)"
  by (simp add: twin_world_eq tank_world_eq volume_to_def traverse_defs query_defs)

section \<open>C3: when the flow rates are reset\<close>

lemmas flow_defs = u_build_flow_rates_between_def reset_flow_rates_def seed_sources_def
  upd_seg_def Let_def

lemma zero_rates_frame:
  "u_nodes (fold (\<lambda>(nm, n) w'. upd_seg w' n (\<lambda>s. s\<lparr>u_flow_rate := Finite 0\<rparr>)) xs w) = u_nodes w"
  "length (objs (fold (\<lambda>(nm, n) w'. upd_seg w' n (\<lambda>s. s\<lparr>u_flow_rate := Finite 0\<rparr>)) xs w)) = length (objs w)"
  by (induction xs arbitrary: w) (simp_all add: case_prod_beta)

lemma zero_rates_rate:
  "n < length (objs w) \<Longrightarrow>
   u_flow_rate (seg (fold (\<lambda>(nm, n) w'. upd_seg w' n (\<lambda>s. s\<lparr>u_flow_rate := Finite 0\<rparr>)) xs w) n) =
     (if n \<in> snd ` set xs then Finite 0 else u_flow_rate (seg w n))"
proof (induction xs arbitrary: w)
  case Nil
  then show ?case by simp
next
  case (Cons x xs)
  obtain nm m where x: "x = (nm, m)" by (cases x)
  let ?w = "upd_seg w m (\<lambda>s. s\<lparr>u_flow_rate := Finite 0\<rparr>)"
  from Cons.prems have "n < length (objs ?w)" by simp
  from Cons.IH [OF this] Cons.prems show ?case
    by (auto simp: x seg_upd_seg)
qed

lemma reset_flow_rates_zero:
  assumes "(nm, n) \<in> set (u_nodes (reset_flow_rates w))" and "n < length (objs (reset_flow_rates w))"
  shows "u_flow_rate (seg (reset_flow_rates w) n) = Finite 0"
proof -
  from assms have mem: "(nm, n) \<in> set (u_nodes w)" and n: "n < length (objs w)"
    by (simp_all add: reset_flow_rates_def zero_rates_frame)
  from mem have "n \<in> snd ` set (u_nodes w)" by force
  with zero_rates_rate [OF n, of "u_nodes w"] show ?thesis
    by (simp add: reset_flow_rates_def)
qed

lemma chain_time_from:
  "time_from chain_world 2 [(''A'', Finite 60)] = (Inr (Some (Finite (1 / 2))), chain_world)"
  by (simp add: time_from_def duration_to_def duration_def chain_world_eq flow_defs traverse_defs query_defs)

lemma diamond_time_from:
  "time_from diamond_world 3 [(''S'', Finite 60)] =
     (Inl RuntimeError,
      \<lparr>state_cache = [],
       objs =
         [\<lparr>name = ''S'', volume = Finite 0, u_flow_rate = Finite 60, u_state_ids = [],
           u_connections = [(''consistent'', \<lparr>children = [1, 2], parents = []\<rparr>)]\<rparr>,
          \<lparr>name = ''A'', volume = Finite 10, u_flow_rate = Finite 0, u_state_ids = [],
           u_connections = [(''consistent'', \<lparr>children = [3], parents = [0]\<rparr>)]\<rparr>,
          \<lparr>name = ''B'', volume = Finite 20, u_flow_rate = Finite 0, u_state_ids = [],
           u_connections = [(''consistent'', \<lparr>children = [3], parents = [0]\<rparr>)]\<rparr>,
          \<lparr>name = ''T'', volume = Finite 30, u_flow_rate = Finite 0, u_state_ids = [],
           u_connections = [(''consistent'', \<lparr>children = [], parents = [1, 2]\<rparr>)]\<rparr>],
       u_nodes = [(''A'', 1), (''S'', 0), (''B'', 2), (''T'', 3)]\<rparr>)"
  by (simp add: time_from_def diamond_world_eq flow_defs traverse_defs query_defs)

text \<open>
  C3 (as amended). The flow rates are reset when a propagation starts and when a query
  returns a value: if \<open>time_from\<close> or \<open>check_flow_stability_from\<close> returns a result (not
  absent), the flow rate of every registered node is 0 afterwards. When the query ends by
  raising an error, no reset follows the propagation: the world is left as
  \<open>_build_flow_rates_between\<close> left it, with the rates seeded so far.
\<close>

theorem flow_rates_reset_on_return:
  "(time_from w self src_flow_rates = (Inr (Some d), w') \<longrightarrow>
      (\<forall>(nm, n) \<in> set (u_nodes w'). n < length (objs w') \<longrightarrow> u_flow_rate (seg w' n) = Finite 0))
   \<and> (check_flow_stability_from w self critical_flow_ratio src_flow_rates = (Inr (Some res), w'') \<longrightarrow>
      (\<forall>(nm, n) \<in> set (u_nodes w''). n < length (objs w'') \<longrightarrow> u_flow_rate (seg w'' n) = Finite 0))
   \<and> (fst (time_from w self src_flow_rates) = Inl e \<longrightarrow>
        snd (time_from w self src_flow_rates)
          = snd (u_build_flow_rates_between w self (name (seg w self)) src_flow_rates))
   \<and> (fst (check_flow_stability_from w self critical_flow_ratio src_flow_rates) = Inl e' \<longrightarrow>
        snd (check_flow_stability_from w self critical_flow_ratio src_flow_rates)
          = snd (u_build_flow_rates_between w self (name (seg w self)) src_flow_rates))"
proof (intro conjI impI)
  assume "time_from w self src_flow_rates = (Inr (Some d), w')"
  then obtain w1 where "w' = reset_flow_rates w1"
    by (auto simp: time_from_def split: prod.splits sum.splits if_splits)
  then show "\<forall>(nm, n) \<in> set (u_nodes w'). n < length (objs w') \<longrightarrow> u_flow_rate (seg w' n) = Finite 0"
    using reset_flow_rates_zero by blast
next
  assume "check_flow_stability_from w self critical_flow_ratio src_flow_rates = (Inr (Some res), w'')"
  then obtain w1 where "w'' = reset_flow_rates w1"
    by (auto simp: check_flow_stability_from_def split: prod.splits sum.splits if_splits)
  then show "\<forall>(nm, n) \<in> set (u_nodes w''). n < length (objs w'') \<longrightarrow> u_flow_rate (seg w'' n) = Finite 0"
    using reset_flow_rates_zero by blast
next
  assume "fst (time_from w self src_flow_rates) = Inl e"
  then show "snd (time_from w self src_flow_rates)
          = snd (u_build_flow_rates_between w self (name (seg w self)) src_flow_rates)"
    by (auto simp: time_from_def split: prod.splits sum.splits if_splits)
next
  assume "fst (check_flow_stability_from w self critical_flow_ratio src_flow_rates) = Inl e'"
  then show "snd (check_flow_stability_from w self critical_flow_ratio src_flow_rates)
          = snd (u_build_flow_rates_between w self (name (seg w self)) src_flow_rates)"
    by (auto simp: check_flow_stability_from_def split: prod.splits sum.splits if_splits)
qed

theorem flow_rates_reset_on_return_witness:
  "time_from chain_world 2 [(''A'', Finite 60)] = (Inr (Some (Finite (1 / 2))), chain_world) \<and>
   u_nodes chain_world = [(''B'', 1), (''A'', 0), (''C'', 2)] \<and> length (objs chain_world) = 3 \<and>
   u_flow_rate (seg chain_world 0) = Finite 0 \<and> u_flow_rate (seg chain_world 1) = Finite 0 \<and>
   u_flow_rate (seg chain_world 2) = Finite 0 \<and>
   fst (time_from diamond_world 3 [(''S'', Finite 60)]) = Inl RuntimeError \<and>
   snd (time_from diamond_world 3 [(''S'', Finite 60)])
     = snd (u_build_flow_rates_between diamond_world 3 (name (seg diamond_world 3)) [(''S'', Finite 60)])"
proof -
  have a: "time_from chain_world 2 [(''A'', Finite 60)] = (Inr (Some (Finite (1 / 2))), chain_world)"
    by (rule chain_time_from)
  have b: "fst (time_from diamond_world 3 [(''S'', Finite 60)]) = Inl RuntimeError"
    by (simp add: diamond_time_from)
  from flow_rates_reset_on_return [of chain_world 2 "[(''A'', Finite 60)]" "Finite (1 / 2)" chain_world]
       flow_rates_reset_on_return [of diamond_world 3 "[(''S'', Finite 60)]" _ _ _ _ _ RuntimeError] a b
  show ?thesis by (simp add: chain_world_eq seg_def)
qed

text \<open>
  C3 as stated fails: in the diamond, \<open>T.time_from(S=60)\<close> raises \<open>RuntimeError\<close> (two paths from
  S to T), and afterwards the registered node S still has the flow rate 60.
\<close>

theorem flow_rates_leak_counterexample:
  "fst (time_from diamond_world 3 [(''S'', Finite 60)]) = Inl RuntimeError \<and>
   map_of (u_nodes (snd (time_from diamond_world 3 [(''S'', Finite 60)]))) ''S'' = Some 0 \<and>
   u_flow_rate (seg (snd (time_from diamond_world 3 [(''S'', Finite 60)])) 0) = Finite 60"
  by (simp add: diamond_time_from seg_def)

section \<open>C7: nodes with a single positive-rate parent\<close>

lemma chain_stability:
  "fst (check_flow_stability_from chain_world 2 (Finite 10) [(''A'', Finite 60)]) = Inr (Some ([], Finite 1))"
  by (simp add: check_flow_stability_from_def chain_world_eq flow_defs traverse_defs query_defs
        list_max_def list_min_def)

lemma chain_stability_low:
  "fst (check_flow_stability_from chain_world 2 (Finite (1 / 2)) [(''A'', Finite 60)]) = Inr (Some ([''B'', ''C''], Finite 1))"
  by (simp add: check_flow_stability_from_def chain_world_eq flow_defs traverse_defs query_defs
        list_max_def list_min_def)

lemma chain_parents:
  "connections chain_world 0 False = Inr \<lparr>children = [1], parents = []\<rparr>"
  "connections chain_world 1 False = Inr \<lparr>children = [2], parents = [0]\<rparr>"
  "connections chain_world 2 False = Inr \<lparr>children = [], parents = [1]\<rparr>"
  by (simp_all add: chain_world_eq query_defs)

text \<open>
  C7, evaluated on the chain A \<rightarrow> B \<rightarrow> C with the source A at rate 60. No node has two
  parents: A has none, B and C have one each, with rate 60 after the propagation. Still the
  worst ratio reported is 1 (not the initial \<open>-Inf\<close>), and with a critical ratio of 1/2 both
  B and C enter the unstable set.
\<close>

theorem single_parent_contributes:
  "connections chain_world 0 False = Inr \<lparr>children = [1], parents = []\<rparr> \<and>
   connections chain_world 1 False = Inr \<lparr>children = [2], parents = [0]\<rparr> \<and>
   connections chain_world 2 False = Inr \<lparr>children = [], parents = [1]\<rparr> \<and>
   fst (check_flow_stability_from chain_world 2 (Finite 10) [(''A'', Finite 60)]) = Inr (Some ([], Finite 1)) \<and>
   fst (check_flow_stability_from chain_world 2 (Finite (1 / 2)) [(''A'', Finite 60)])
     = Inr (Some ([''B'', ''C''], Finite 1))"
  using chain_parents chain_stability chain_stability_low by simp

section \<open>C6: the fixed-point loop\<close>

declare propagate.simps [simp del]

lemma active_buckets_error: "active_buckets cache conns ids = Inl e \<Longrightarrow> e = KeyError"
  by (induction ids) (auto split: option.splits sum.splits)

lemma connections_error: "connections w n ignore_state = Inl e \<Longrightarrow> e = KeyError"
  by (auto simp: connections_def split: if_splits sum.splits option.splits dest: active_buckets_error)

lemma update_pass_error: "update_pass w pe = (Inl e, w') \<Longrightarrow> e = KeyError"
proof (induction w pe arbitrary: w' rule: update_pass.induct)
  case (1 w)
  then show ?case by simp
next
  case (2 w nm segment rest)
  then show ?case
    by (auto simp: Let_def split: sum.splits prod.splits if_splits dest: connections_error)
qed

lemma update_pass_no_change:
  "update_pass w pe = (Inr flags, w') \<Longrightarrow> \<not> list_ex (\<lambda>updated. updated) flags \<Longrightarrow> w' = w"
proof (induction w pe arbitrary: flags w' rule: update_pass.induct)
  case (1 w)
  then show ?case by simp
next
  case (2 w nm segment rest)
  let ?old = "u_flow_rate (seg w segment)"
  from "2.prems"(1) obtain es where es: "connections w segment False = Inr es"
    by (auto split: sum.splits)
  let ?new = "foldl fadd (Finite 0) (map (\<lambda>p. u_flow_rate (seg w p)) (parents es))"
  let ?w1 = "if fne ?old ?new then upd_seg w segment (\<lambda>s. s\<lparr>u_flow_rate := ?new\<rparr>) else w"
  from "2.prems"(1) es obtain fl where
    rest: "update_pass ?w1 rest = (Inr fl, w')" and flags: "flags = fne ?old ?new # fl"
    by (auto simp: Let_def split: sum.splits prod.splits)
  from "2.prems"(2) flags have same: "\<not> fne ?old ?new" and quiet: "\<not> list_ex (\<lambda>updated. updated) fl"
    by simp_all
  from "2.IH" [OF es refl refl refl rest quiet] same show ?case by simp
qed

lemma propagate_outcome:
  "propagate w pe it = (res, w') \<Longrightarrow>
     (res = Inr () \<and> (\<exists>flags. update_pass w' pe = (Inr flags, w') \<and> \<not> list_ex (\<lambda>updated. updated) flags))
     \<or> res = Inl TimeoutError \<or> res = Inl KeyError"
proof (induction w pe it arbitrary: res w' rule: propagate.induct)
  case (1 w pe it)
  obtain r w1 where pass: "update_pass w pe = (r, w1)" by (cases "update_pass w pe")
  show ?case
  proof (cases r)
    case (Inl e)
    with pass "1.prems" update_pass_error [of w pe e w1] show ?thesis
      by (simp add: propagate.simps [of w pe it])
  next
    case (Inr flags)
    show ?thesis
    proof (cases "it + 1 > 1000")
      case True
      with pass Inr "1.prems" show ?thesis by (simp add: propagate.simps [of w pe it])
    next
      case False
      show ?thesis
      proof (cases "list_ex (\<lambda>updated. updated) flags")
        case True
        with pass Inr False "1.prems" have "propagate w1 pe (it + 1) = (res, w')"
          by (simp add: propagate.simps [of w pe it])
        from "1.IH" [OF pass [symmetric] _ _ _ this] Inr False True show ?thesis by simp
      next
        case no: False
        from update_pass_no_change [OF pass [unfolded Inr] no] have "w1 = w" .
        with pass Inr False no "1.prems" show ?thesis
          by (auto simp: propagate.simps [of w pe it])
      qed
    qed
  qed
qed

lemma propagate_cap:
  "update_pass w pe = (Inr flags, w') \<Longrightarrow> 1000 \<le> it \<Longrightarrow> propagate w pe it = (Inl TimeoutError, w')"
  by (simp add: propagate.simps [of w pe it])

lemma propagate_converged:
  "update_pass w pe = (Inr flags, w') \<Longrightarrow> it < 1000 \<Longrightarrow> \<not> list_ex (\<lambda>updated. updated) flags \<Longrightarrow>
     propagate w pe it = (Inr (), w')"
  by (simp add: propagate.simps [of w pe it])

lemma loop_pass:
  "r \<noteq> 0 \<Longrightarrow>
   update_pass (loop_state (Finite r) (Finite x)) [(''A'', 1), (''B'', 2)]
     = (Inr [True, True], loop_state (Finite r) (Finite (r + x)))"
  by (simp add: loop_state_def query_defs upd_seg_def Let_def)

lemma loop_propagate:
  "r \<noteq> 0 \<Longrightarrow> it \<le> 1000 \<Longrightarrow>
   propagate (loop_state (Finite r) (Finite x)) [(''A'', 1), (''B'', 2)] it
     = (Inl TimeoutError, loop_state (Finite r) (Finite (x + real (1001 - it) * r)))"
proof (induction "1000 - it" arbitrary: it x)
  case 0
  then have it: "it = 1000" by simp
  show ?case
    by (subst propagate.simps, subst loop_pass [OF \<open>r \<noteq> 0\<close>]) (simp add: it add.commute)
next
  case (Suc k)
  then have lt: "it < 1000" and k: "k = 1000 - (it + 1)" and le: "it + 1 \<le> 1000" by simp_all
  from Suc.hyps(1) [OF k \<open>r \<noteq> 0\<close> le, of "r + x"] lt show ?case
    by (subst propagate.simps, subst loop_pass [OF \<open>r \<noteq> 0\<close>]) (simp add: algebra_simps)
qed

lemma loop_seeded:
  "seed_sources (reset_flow_rates loop_world) [(''S'', r)] = loop_state r (Finite 0)"
  by (simp add: loop_world_eq loop_state_def flow_defs)

lemma loop_collect:
  "collect_paths (loop_state r (Finite 0)) ''T'' [''S''] [''S''] ([], [], [])
     = Inr ([(''A'', 1), (''B'', 2)], [0], [[0, 1, 2, 3]])"
  by (simp add: loop_state_def traverse_defs query_defs)

lemma loop_build:
  assumes "r \<noteq> 0"
  shows "u_build_flow_rates_between loop_world self ''T'' [(''S'', Finite r)]
           = (Inl TimeoutError, loop_state (Finite r) (Finite (1001 * r)))"
proof -
  have reg: "map_of (u_nodes loop_world) ''T'' \<noteq> None" by (simp add: loop_world_eq)
  from loop_propagate [OF assms, of 0 0]
  have run: "propagate (loop_state (Finite r) (Finite 0)) [(''A'', 1), (''B'', 2)] 0
               = (Inl TimeoutError, loop_state (Finite r) (Finite (1001 * r)))"
    by simp
  have keys: "map fst [(''S'', Finite r)] = [''S'']" by simp
  show ?thesis
    unfolding u_build_flow_rates_between_def Let_def keys loop_seeded loop_collect
    using reg run by simp
qed

lemma loop_time_from:
  assumes "r \<noteq> 0"
  shows "time_from loop_world 3 [(''S'', Finite r)]
           = (Inl TimeoutError, loop_state (Finite r) (Finite (1001 * r)))"
proof -
  have nm: "name (seg loop_world 3) = ''T''" by (simp add: loop_world_eq seg_def)
  show ?thesis unfolding time_from_def nm loop_build [OF assms] by simp
qed

lemma chain_propagate:
  "fst (propagate (seed_sources chain_world [(''A'', Finite 60)]) [(''B'', 1)] 0) = Inr ()"
  by (simp add: chain_world_eq flow_defs query_defs propagate.simps)

lemma side_loop_time_from:
  "fst (time_from side_loop_world 3 [(''S'', Finite 60)]) = Inr (Some (Finite (1 / 6)))"
  by (simp add: time_from_def duration_to_def duration_def side_loop_world_eq flow_defs traverse_defs
        query_defs propagate.simps)

lemma side_loop_parents:
  "connections side_loop_world 1 False = Inr \<lparr>children = [2, 3], parents = [0, 2]\<rparr>"
  "connections side_loop_world 2 False = Inr \<lparr>children = [1], parents = [1]\<rparr>"
  by (simp_all add: side_loop_world_eq query_defs)

lemma loop_inf_time_from:
  "fst (time_from loop_world 3 [(''S'', PInf)]) = Inr (Some (Finite 0))"
  by (simp add: time_from_def duration_to_def duration_def loop_world_eq flow_defs traverse_defs
        query_defs propagate.simps)

text \<open>
  C6 (as amended). The fixed-point loop is a total function, so it always ends. Started
  with no pass done, it ends in one of three ways: it returns after a full pass in which
  no rate changed (a further pass from the final world changes nothing), or it raises
  \<open>TimeoutError\<close> (the spec's NonConvergenceError), or a \<open>KeyError\<close> of \<open>connections\<close> passes
  through. A pass without a change ends the loop normally while at most 1000 passes have
  run; the pass number 1001 ends it with \<open>TimeoutError\<close>. In particular the loop
  A \<rightarrow> B \<rightarrow> A whose two segments both lie on the collected path S \<rightarrow> A \<rightarrow> B \<rightarrow> T raises
  \<open>TimeoutError\<close> in pass 1001, when A and B hold the rate \<open>1001 * n\<close>, for every source rate
  at S that is a positive whole number \<open>n\<close> with \<open>1001 * n \<le> 2^53\<close>: all the sums of the
  propagation are then whole numbers up to \<open>2^53\<close>, on which float addition is exact.
\<close>

theorem propagation_terminates:
  "(propagate w pe 0 = (res, w') \<longrightarrow>
      (res = Inr () \<and> (\<exists>flags. update_pass w' pe = (Inr flags, w') \<and> \<not> list_ex (\<lambda>updated. updated) flags))
      \<or> res = Inl TimeoutError \<or> res = Inl KeyError)
   \<and> (update_pass w pe = (Inr flags, w1) \<and> it < 1000 \<and> \<not> list_ex (\<lambda>updated. updated) flags \<longrightarrow>
        propagate w pe it = (Inr (), w1))
   \<and> (update_pass w pe = (Inr flags, w1) \<and> 1000 \<le> it \<longrightarrow> propagate w pe it = (Inl TimeoutError, w1))
   \<and> (0 < n \<and> 1001 * n \<le> 2 ^ 53 \<longrightarrow>
        time_from loop_world 3 [(''S'', Finite (real n))]
          = (Inl TimeoutError, loop_state (Finite (real n)) (Finite (1001 * real n))))"
  using propagate_outcome [of w pe 0 res w'] propagate_converged [of w pe flags w1 it]
    propagate_cap [of w pe flags w1 it] loop_time_from [of "real n"]
  by auto

theorem propagation_terminates_witness:
  "(0 :: nat) < 60 \<and> 1001 * (60 :: nat) \<le> 2 ^ 53 \<and>
   time_from loop_world 3 [(''S'', Finite (real (60 :: nat)))]
     = (Inl TimeoutError, loop_state (Finite (real (60 :: nat))) (Finite (1001 * real (60 :: nat)))) \<and>
   fst (propagate (seed_sources chain_world [(''A'', Finite 60)]) [(''B'', 1)] 0) = Inr ()"
  using propagation_terminates [where n = 60] chain_propagate by simp

text \<open>
  C6 as stated fails in two ways. For a loop beside the collected path: in S \<rightarrow> A \<rightarrow> T with
  A \<rightarrow> B \<rightarrow> A the resolved parents of A contain B and those of B contain A, the source S feeds
  the loop with the rate 60, and still \<open>T.time_from(S=60)\<close> converges and returns 10/60: only
  the nodes on the collected paths are updated, and B is on none. And for the loop on the
  path with the positive source rate \<open>inf\<close>: A and B hold \<open>inf\<close> after the first pass, the
  second pass changes nothing (\<open>inf + inf\<close> is \<open>inf\<close>), and \<open>T.time_from(S=inf)\<close> returns 0.
\<close>

theorem loop_converges_counterexample:
  "connections side_loop_world 1 False = Inr \<lparr>children = [2, 3], parents = [0, 2]\<rparr> \<and>
   connections side_loop_world 2 False = Inr \<lparr>children = [1], parents = [1]\<rparr> \<and>
   fst (time_from side_loop_world 3 [(''S'', Finite 60)]) = Inr (Some (Finite (1 / 6))) \<and>
   connections loop_world 1 False = Inr \<lparr>children = [2], parents = [0, 2]\<rparr> \<and>
   connections loop_world 2 False = Inr \<lparr>children = [1, 3], parents = [1]\<rparr> \<and>
   fst (time_from loop_world 3 [(''S'', PInf)]) = Inr (Some (Finite 0))"
  using side_loop_parents side_loop_time_from loop_inf_time_from
  by (simp add: loop_world_eq query_defs)

section \<open>C10: the registry of names\<close>


















end
